theory Spec2Isabelle
  imports Main "HOL-Library.Word"
begin

section \<open>JavaScript strings\<close>

text \<open>
  A JavaScript string is a sequence of UTF-16 code units; \<open>length\<close>, \<open>startsWith\<close>,
  \<open>slice\<close> and \<open>split\<close> all count code units. Every literal of \<^verbatim>\<open>main.ts\<close> is ASCII
  except the ten spinner frames, which are single code units of the Braille block.
\<close>

type_synonym jchar = "16 word"
type_synonym jstring = "jchar list"

definition js :: "string \<Rightarrow> jstring" where
  "js s = map of_char s"

definition nl :: jchar where
  "nl = 0x0A"

definition startsWith :: "jstring \<Rightarrow> jstring \<Rightarrow> bool" where
  "startsWith s p = (take (length p) s = p)"

definition endsWith :: "jstring \<Rightarrow> jstring \<Rightarrow> bool" where
  "endsWith s p = (length p \<le> length s \<and> drop (length s - length p) s = p)"

text \<open>\<^verbatim>\<open>s.split('\n')\<close>: never empty, one more segment than there are newlines.\<close>

fun split_nl :: "jstring \<Rightarrow> jstring list" where
  "split_nl [] = [[]]"
| "split_nl (c # cs) =
     (if c = nl then [] # split_nl cs
      else (case split_nl cs of [] \<Rightarrow> [[c]] | l # ls \<Rightarrow> (c # l) # ls))"

fun join_nl :: "jstring list \<Rightarrow> jstring" where
  "join_nl [] = []"
| "join_nl [l] = l"
| "join_nl (l # ls) = l @ nl # join_nl ls"

text \<open>\<^verbatim>\<open>s.replace(/\n/g, '\n> ')\<close>.\<close>

fun replace_nl :: "jstring \<Rightarrow> jstring" where
  "replace_nl [] = []"
| "replace_nl (c # cs) =
     (if c = nl then nl # js ''> '' @ replace_nl cs else c # replace_nl cs)"

text \<open>
  \<^verbatim>\<open>s.trim()\<close> removes white space and line terminators (ECMAScript \<open>WhiteSpace\<close> and
  \<open>LineTerminator\<close>) from both ends.
\<close>

definition is_ws :: "jchar \<Rightarrow> bool" where
  "is_ws c = (c = 0x09 \<or> c = 0x0A \<or> c = 0x0B \<or> c = 0x0C \<or> c = 0x0D \<or> c = 0x20
     \<or> c = 0xA0 \<or> c = 0x1680 \<or> (0x2000 \<le> c \<and> c \<le> 0x200A)
     \<or> c = 0x2028 \<or> c = 0x2029 \<or> c = 0x202F \<or> c = 0x205F \<or> c = 0x3000
     \<or> c = 0xFEFF)"

definition trimEnd :: "jstring \<Rightarrow> jstring" where
  "trimEnd s = rev (dropWhile is_ws (rev s))"

definition trim :: "jstring \<Rightarrow> jstring" where
  "trim s = trimEnd (dropWhile is_ws s)"

text \<open>Template-literal conversion of a non-negative integer (the HTTP status).\<close>

fun numToString :: "nat \<Rightarrow> jstring" where
  "numToString n =
     (if n < 10 then [of_nat (48 + n)]
      else numToString (n div 10) @ [of_nat (48 + n mod 10)])"

section \<open>The document buffer\<close>

text \<open>
  The editor is the host's object; \<^verbatim>\<open>main.ts\<close> uses \<^verbatim>\<open>getLine\<close>, \<^verbatim>\<open>getRange\<close>,
  \<^verbatim>\<open>replaceRange\<close>, \<^verbatim>\<open>lineCount\<close>, \<^verbatim>\<open>getCursor\<close> and \<^verbatim>\<open>setCursor\<close>. The buffer is
  the list of its lines (no line contains a newline, and there is always at least one
  line). A read outside the buffer yields the empty string and a position outside a line
  is clamped by \<open>take\<close> and \<open>drop\<close>; the theorems below only use positions inside the
  buffer.
\<close>

record position =
  line :: nat
  ch :: nat

definition pos :: "nat \<Rightarrow> nat \<Rightarrow> position" where
  "pos l c = \<lparr>line = l, ch = c\<rparr>"

record editor =
  doc :: "jstring list"
  cursor :: position

definition lineCount :: "editor \<Rightarrow> nat" where
  "lineCount e = length (doc e)"

definition getLine :: "editor \<Rightarrow> nat \<Rightarrow> jstring" where
  "getLine e n = (if n < length (doc e) then doc e ! n else [])"

definition getRange :: "editor \<Rightarrow> position \<Rightarrow> position \<Rightarrow> jstring" where
  "getRange e f t =
     (let ls = take (Suc (line t) - line f) (drop (line f) (doc e))
      in if ls = [] then []
         else drop (ch f) (join_nl (butlast ls @ [take (ch t) (last ls)])))"

text \<open>
  \<^verbatim>\<open>replaceRange(text, from, to)\<close>: the text before \<open>from\<close> on its line, the new text and
  the text after \<open>to\<close> on its line are glued and cut into lines again.
\<close>

definition replaceRange :: "editor \<Rightarrow> jstring \<Rightarrow> position \<Rightarrow> position \<Rightarrow> editor" where
  "replaceRange e text f t =
     e\<lparr>doc := take (line f) (doc e)
                @ split_nl (take (ch f) (getLine e (line f)) @ text
                            @ drop (ch t) (getLine e (line t)))
                @ drop (Suc (line t)) (doc e)\<rparr>"

text \<open>\<^verbatim>\<open>replaceRange(text, at)\<close> with no \<open>to\<close>: an insertion.\<close>

definition insertAt :: "editor \<Rightarrow> jstring \<Rightarrow> position \<Rightarrow> editor" where
  "insertAt e text p = replaceRange e text p p"

definition setCursor :: "editor \<Rightarrow> position \<Rightarrow> editor" where
  "setCursor e p = e\<lparr>cursor := p\<rparr>"

section \<open>Reference parser\<close>

text \<open>
  \<^verbatim>\<open>/@([\w/.-]+)/g\<close>: the class holds ASCII letters, digits, underscore, slash, dot
  and hyphen.
\<close>

definition at_sign :: jchar where
  "at_sign = 0x40"

definition is_model_char :: "jchar \<Rightarrow> bool" where
  "is_model_char c =
     ((0x30 \<le> c \<and> c \<le> 0x39) \<or> (0x41 \<le> c \<and> c \<le> 0x5A) \<or> c = 0x5F
      \<or> (0x61 \<le> c \<and> c \<le> 0x7A) \<or> c = 0x2F \<or> c = 0x2E \<or> c = 0x2D)"

text \<open>
  \<^verbatim>\<open>[...line.matchAll(modelRegex)]\<close>, each match as (index, capture group 1). The scan
  goes left to right; after a match it resumes behind the match.
\<close>

function matchAllFrom :: "nat \<Rightarrow> jstring \<Rightarrow> (nat \<times> jstring) list" where
  "matchAllFrom i [] = []"
| "matchAllFrom i (c # cs) =
     (if c = at_sign \<and> takeWhile is_model_char cs \<noteq> []
      then (i, takeWhile is_model_char cs)
           # matchAllFrom (i + 1 + length (takeWhile is_model_char cs))
                          (dropWhile is_model_char cs)
      else matchAllFrom (i + 1) cs)"
  by pat_completeness auto
termination
  by (relation "measure (\<lambda>(i, s). length s)")
     (auto simp: length_dropWhile_le less_Suc_eq_le)

definition matchAll :: "jstring \<Rightarrow> (nat \<times> jstring) list" where
  "matchAll s = matchAllFrom 0 s"

text \<open>
  The backward loop \<^verbatim>\<open>for (let i = lineNum; i >= 0; i--)\<close>: the result is
  (modelLineNum, match index, model), or \<open>None\<close> when the loop ends with
  \<^verbatim>\<open>modelMatch\<close> still null.
\<close>

fun findModel :: "editor \<Rightarrow> nat \<Rightarrow> (nat \<times> nat \<times> jstring) option" where
  "findModel e 0 =
     (let matches = matchAll (getLine e 0)
      in if matches \<noteq> [] \<and> snd (last matches) \<noteq> [] then Some (0, last matches)
         else None)"
| "findModel e (Suc i) =
     (let matches = matchAll (getLine e (Suc i))
      in if matches \<noteq> [] \<and> snd (last matches) \<noteq> [] then Some (Suc i, last matches)
         else findModel e i)"

text \<open>The \<^verbatim>\<open>+web\<close> flag: (hasWebFlag, prompt).\<close>

definition stripWeb :: "jstring \<Rightarrow> bool \<times> jstring" where
  "stripWeb prompt =
     (if endsWith prompt (js ''+web'')
      then (True, trim (take (length prompt - 4) prompt))
      else (False, prompt))"

section \<open>Settings and wire data\<close>

datatype responseStyle = Plain | HorizontalRule | Callout

datatype cursorBehavior = Keep | End

datatype webSearchPolicy = Always | Trigger | Off

datatype webSearchEngine = Auto | Native | Exa

record Persona =
  name :: jstring
  model :: jstring
  systemPrompt :: jstring

record GhostSettings =
  apiKey :: jstring
  enabledModels :: "jstring list"
  triggerPhrase :: jstring
  systemPrompt :: jstring
  cursorBehavior :: cursorBehavior
  responseStyle :: responseStyle
  personas :: "Persona list"
  webSearchPolicy :: webSearchPolicy
  webSearchEngine :: webSearchEngine

record UrlCitation =
  url :: jstring
  title :: jstring

record OpenRouterAnnotation =
  ann_type :: jstring
  url_citation :: "UrlCitation option"

text \<open>
  What \<^verbatim>\<open>JSON.parse(data)\<close> and the projections \<^verbatim>\<open>parsed.choices?.[0]?.delta\<close> yield
  for one \<^verbatim>\<open>data:\<close> line: \<open>content\<close> is \<^verbatim>\<open>delta?.content || ""\<close> and \<open>annotations\<close> is
  \<^verbatim>\<open>delta?.annotations\<close> (empty when absent). The parser is the platform's; the model
  takes it as the parameter \<open>parse\<close>, and \<open>None\<close> stands for the exception that the
  inner \<^verbatim>\<open>try\<close> catches and logs.
\<close>

record Delta =
  content :: jstring
  annotations :: "OpenRouterAnnotation list"

text \<open>
  The settled fetch: \<open>errorText\<close> is what \<^verbatim>\<open>await response.text()\<close> yields, \<open>None\<close> when
  that promise rejects (the \<^verbatim>\<open>await\<close> is inside the \<^verbatim>\<open>try\<close>, so the \<^verbatim>\<open>catch\<close> block runs);
  it is only read when the response is not OK.
\<close>

record Response =
  ok :: bool
  status :: nat
  errorText :: "jstring option"
  hasBody :: bool

record Request =
  targetModel :: jstring
  systemMessage :: jstring
  userMessage :: jstring
  plugins :: "webSearchEngine option option"

section \<open>One invocation of \<^verbatim>\<open>processStreamingQuery\<close>\<close>

text \<open>
  The function is asynchronous: it runs to its first \<^verbatim>\<open>await\<close>, and is resumed when the
  fetch settles and each time \<^verbatim>\<open>reader.read()\<close> settles. Between two resumptions the
  host may run the interval callback any number of times. The state below holds the
  editor, the notices shown so far and the local variables of the invocation;
  \<open>loadingInterval\<close> says that the variable is not null, \<open>timerRunning\<close> that the
  interval has been set and not cleared.
\<close>

datatype phase = AwaitingResponse | Reading | Returned

record invocation =
  ed :: editor
  notices :: "jstring list"
  request :: "Request option"
  phase :: phase
  generationLine :: nat
  spinnerPrefix :: jstring
  currentFrameIndex :: nat
  loadingInterval :: bool
  timerRunning :: bool
  isFirstChunk :: bool
  currentInsertPos :: position
  buffer :: jstring
  collectedAnnotations :: "OpenRouterAnnotation list"

definition spinnerFrames :: "jchar list" where
  "spinnerFrames =
     [0x280B, 0x2819, 0x2839, 0x2838, 0x283C, 0x2834, 0x2826, 0x2827, 0x2807, 0x280F]"

definition getSpinnerText :: "nat \<Rightarrow> jstring" where
  "getSpinnerText i = spinnerFrames ! i # js '' Generating...''"

text \<open>(prefix, spinnerPrefix, generationLineOffset) for each response style.\<close>

definition styleLayout :: "responseStyle \<Rightarrow> jstring \<times> jstring \<times> nat" where
  "styleLayout st =
     (case st of
        Plain \<Rightarrow> ([nl, nl], [], 2)
      | HorizontalRule \<Rightarrow> ([nl, nl] @ js ''---'' @ [nl, nl], [], 4)
      | Callout \<Rightarrow> ([nl, nl] @ js ''> [!ai] Ghost'' @ nl # js ''> '', js ''> '', 3))"

definition returnedWith :: "editor \<Rightarrow> jstring list \<Rightarrow> invocation" where
  "returnedWith e ns =
     \<lparr>ed = e, notices = ns, request = None, phase = Returned, generationLine = 0,
      spinnerPrefix = [], currentFrameIndex = 0, loadingInterval = False,
      timerRunning = False, isFirstChunk = True, currentInsertPos = pos 0 0,
      buffer = [], collectedAnnotations = []\<rparr>"

definition buildRequest ::
  "GhostSettings \<Rightarrow> jstring \<Rightarrow> jstring \<Rightarrow> jstring \<Rightarrow> bool \<Rightarrow> Request" where
  "buildRequest cfg mdl context prompt hasWebFlag =
     (let persona = find (\<lambda>p. name p = mdl) (personas cfg);
          targetModel = (case persona of None \<Rightarrow> mdl | Some p \<Rightarrow> model p);
          systemInstruction =
            (case persona of None \<Rightarrow> GhostSettings.systemPrompt cfg
             | Some p \<Rightarrow> Persona.systemPrompt p);
          systemPrompt =
            (if systemInstruction \<noteq> []
             then systemInstruction @ [nl, nl] @ js ''Context from the current note:''
                  @ nl # context
             else js ''Context from the current note:'' @ nl # context);
          shouldSearch =
            (case webSearchPolicy cfg of
               Always \<Rightarrow> True | Trigger \<Rightarrow> hasWebFlag | Off \<Rightarrow> False)
      in \<lparr>targetModel = targetModel, systemMessage = systemPrompt, userMessage = prompt,
          plugins = (if shouldSearch
                     then Some (if webSearchEngine cfg = Auto then None
                                else Some (webSearchEngine cfg))
                     else None)\<rparr>)"

text \<open>
  The synchronous part, from the entry to \<^verbatim>\<open>await fetch(...)\<close>: find the model, check the
  key, cut context and prompt, remove the trigger phrase, insert the placeholder, start
  the interval, send the request.
\<close>

definition processStreamingQuery ::
  "GhostSettings \<Rightarrow> editor \<Rightarrow> nat \<Rightarrow> jstring \<Rightarrow> invocation" where
  "processStreamingQuery cfg e lineNum lineText =
     (case findModel e lineNum of
        None \<Rightarrow> returnedWith e [js ''Ghost: no model specified (e.g. @model-name).'']
      | Some (modelLineNum, index, mdl) \<Rightarrow>
          if apiKey cfg = [] then returnedWith e [js ''API key missing.'']
          else
            let context = getRange e (pos 0 0) (pos modelLineNum index);
                shouldRemoveTrigger = endsWith lineText (triggerPhrase cfg);
                promptEndCh =
                  (if shouldRemoveTrigger then length lineText - length (triggerPhrase cfg)
                   else length lineText);
                promptStart = pos modelLineNum (index + (1 + length mdl));
                promptEnd = pos lineNum promptEndCh;
                (hasWebFlag, prompt) = stripWeb (trim (getRange e promptStart promptEnd));
                e1 = (if shouldRemoveTrigger
                      then replaceRange e [] (pos lineNum promptEndCh)
                             (pos lineNum (length lineText))
                      else e);
                (prefix, spinnerPrefix, generationLineOffset) =
                  styleLayout (responseStyle cfg);
                placeholder = prefix @ getSpinnerText 0;
                e2 = insertAt e1 placeholder (pos lineNum promptEndCh);
                generationLine = lineNum + generationLineOffset
            in \<lparr>ed = e2, notices = [],
                request = Some (buildRequest cfg mdl context prompt hasWebFlag),
                phase = AwaitingResponse, generationLine = generationLine,
                spinnerPrefix = spinnerPrefix, currentFrameIndex = 0,
                loadingInterval = True, timerRunning = True, isFirstChunk = True,
                currentInsertPos = pos generationLine 0, buffer = [],
                collectedAnnotations = []\<rparr>)"

text \<open>The interval callback.\<close>

definition looksLikeSpinner :: "jstring \<Rightarrow> bool" where
  "looksLikeSpinner checkContent = list_ex (\<lambda>f. startsWith checkContent [f]) spinnerFrames"

definition tick :: "GhostSettings \<Rightarrow> invocation \<Rightarrow> invocation" where
  "tick cfg s0 =
     (let s = s0\<lparr>currentFrameIndex := (currentFrameIndex s0 + 1) mod length spinnerFrames\<rparr>
      in if lineCount (ed s) > generationLine s
         then
           let lineContent = getLine (ed s) (generationLine s);
               checkContent =
                 (if responseStyle cfg = Callout then drop 2 lineContent else lineContent)
           in if looksLikeSpinner checkContent
              then s\<lparr>ed := replaceRange (ed s)
                              (spinnerPrefix s @ getSpinnerText (currentFrameIndex s))
                              (pos (generationLine s) 0)
                              (pos (generationLine s) (length lineContent))\<rparr>
              else s
         else if loadingInterval s then s\<lparr>timerRunning := False\<rparr> else s)"

text \<open>\<^verbatim>\<open>if (loadingInterval) clearInterval(loadingInterval)\<close>.\<close>

definition clearLoadingInterval :: "invocation \<Rightarrow> invocation" where
  "clearLoadingInterval s = (if loadingInterval s then s\<lparr>timerRunning := False\<rparr> else s)"

definition catchBlock :: "invocation \<Rightarrow> invocation" where
  "catchBlock s =
     (clearLoadingInterval s)\<lparr>notices := notices s @ [js ''Streaming error.''],
                              phase := Returned\<rparr>"

definition onResponse :: "invocation \<Rightarrow> Response \<Rightarrow> invocation" where
  "onResponse s r =
     (if \<not> ok r
      then (case errorText r of
              Some body \<Rightarrow>
                (clearLoadingInterval s)
                  \<lparr>notices := notices s @ [js ''Ghost Error: '' @ numToString (status r)
                                           @ js '' - '' @ take 100 body],
                   phase := Returned\<rparr>
            | None \<Rightarrow> catchBlock (clearLoadingInterval s))
      else if \<not> hasBody r then (clearLoadingInterval s)\<lparr>phase := Returned\<rparr>
      else s\<lparr>phase := Reading, buffer := [], collectedAnnotations := []\<rparr>)"

text \<open>The two position updates: after a content delta, and after sources or divider.\<close>

definition advancePos :: "position \<Rightarrow> jstring \<Rightarrow> position" where
  "advancePos p text =
     (let lines = split_nl text
      in if length lines > 1 then pos (line p + length lines - 1) (length (last lines))
         else pos (line p) (ch p + length text))"

definition advanceLines :: "position \<Rightarrow> jstring \<Rightarrow> position" where
  "advanceLines p text =
     (let lines = split_nl text
      in pos (line p + length lines - 1) (length (last lines)))"

definition displayContent :: "GhostSettings \<Rightarrow> jstring \<Rightarrow> jstring" where
  "displayContent cfg c = (if responseStyle cfg = Callout then replace_nl c else c)"

text \<open>The body of \<^verbatim>\<open>if (content) { ... }\<close>.\<close>

definition insertContent :: "GhostSettings \<Rightarrow> invocation \<Rightarrow> jstring \<Rightarrow> invocation" where
  "insertContent cfg s c =
     (if isFirstChunk s
      then
        let s1 = (if loadingInterval s
                  then s\<lparr>timerRunning := False, loadingInterval := False\<rparr> else s);
            g = generationLine s1
        in (if lineCount (ed s1) > g
            then
              let currentLineLen = length (getLine (ed s1) g);
                  d = (if responseStyle cfg = Callout then js ''> '' @ displayContent cfg c
                       else displayContent cfg c);
                  lines = split_nl d
              in s1\<lparr>ed := replaceRange (ed s1) d (pos g 0) (pos g currentLineLen),
                     currentInsertPos :=
                       (if length lines > 1
                        then pos (g + length lines - 1) (length (last lines))
                        else pos g (length d))\<rparr>
            else
              let lastLine = lineCount (ed s1) - 1;
                  lastLineLen = length (getLine (ed s1) lastLine);
                  fallbackContent =
                    (if responseStyle cfg = Callout then nl # js ''> '' @ replace_nl c
                     else c);
                  e' = insertAt (ed s1) ([nl, nl] @ fallbackContent) (pos lastLine lastLineLen);
                  endLine = lineCount e' - 1
              in s1\<lparr>ed := e',
                     currentInsertPos := pos endLine (length (getLine e' endLine))\<rparr>)
           \<lparr>isFirstChunk := False\<rparr>
      else s\<lparr>ed := insertAt (ed s) (displayContent cfg c) (currentInsertPos s),
              currentInsertPos := advancePos (currentInsertPos s) (displayContent cfg c)\<rparr>)"

text \<open>One complete line of the response body.\<close>

definition processLine ::
  "GhostSettings \<Rightarrow> (jstring \<Rightarrow> Delta option) \<Rightarrow> invocation \<Rightarrow> jstring \<Rightarrow> invocation" where
  "processLine cfg parse s ln =
     (let trimmedLine = trim ln
      in if trimmedLine = [] then s
         else if trimmedLine = js '': OPENROUTER PROCESSING'' then s
         else if startsWith trimmedLine (js ''data: '')
         then
           let data = drop 6 trimmedLine
           in if data = js ''[DONE]'' then s
              else (case parse data of
                      None \<Rightarrow> s
                    | Some delta \<Rightarrow>
                        let s1 = s\<lparr>collectedAnnotations :=
                                     collectedAnnotations s @ annotations delta\<rparr>
                        in if content delta \<noteq> [] then insertContent cfg s1 (content delta)
                           else s1)
         else if startsWith trimmedLine (js ''error: '')
         then s\<lparr>notices := notices s @ [js ''Stream Error: '' @ trimmedLine]\<rparr>
         else s)"

text \<open>
  One resolved \<^verbatim>\<open>reader.read()\<close> with \<^verbatim>\<open>done\<close> false; \<open>chunk\<close> is the decoded text of the
  bytes read (\<^verbatim>\<open>decoder.decode(value, {stream: true})\<close>).
\<close>

definition onChunk ::
  "GhostSettings \<Rightarrow> (jstring \<Rightarrow> Delta option) \<Rightarrow> invocation \<Rightarrow> jstring \<Rightarrow> invocation" where
  "onChunk cfg parse s chunk =
     (let lines = split_nl (buffer s @ chunk)
      in foldl (processLine cfg parse) (s\<lparr>buffer := last lines\<rparr>) (butlast lines))"

text \<open>\<^verbatim>\<open>Map.prototype.set\<close>: a known key keeps its place, a new key goes last.\<close>

fun mapSet :: "('k \<times> 'v) list \<Rightarrow> 'k \<Rightarrow> 'v \<Rightarrow> ('k \<times> 'v) list" where
  "mapSet [] k v = [(k, v)]"
| "mapSet ((k', v') # m) k v = (if k' = k then (k, v) # m else (k', v') # mapSet m k v)"

definition uniqueSources :: "OpenRouterAnnotation list \<Rightarrow> (jstring \<times> jstring) list" where
  "uniqueSources anns =
     foldl (\<lambda>m a. case url_citation a of
                    None \<Rightarrow> m
                  | Some c \<Rightarrow> mapSet m (url c) (if title c \<noteq> [] then title c else url c))
           [] anns"

definition sourceEntry :: "jstring \<times> jstring \<Rightarrow> jstring" where
  "sourceEntry = (\<lambda>(u, t). js ''- ['' @ t @ js '']('' @ u @ js '')'' @ [nl])"

definition sourcesText :: "(jstring \<times> jstring) list \<Rightarrow> jstring" where
  "sourcesText m =
     foldl (\<lambda>text ut. text @ sourceEntry ut) ([nl, nl] @ js ''**Sources:**'' @ [nl]) m"

text \<open>The \<^verbatim>\<open>done\<close> branch and the code after the loop.\<close>

definition appendSources :: "GhostSettings \<Rightarrow> invocation \<Rightarrow> invocation" where
  "appendSources cfg s =
     (if collectedAnnotations s \<noteq> []
      then
        let m = uniqueSources (collectedAnnotations s)
        in if m \<noteq> []
           then
             let text = (if responseStyle cfg = Callout then replace_nl (sourcesText m)
                         else sourcesText m)
             in s\<lparr>ed := insertAt (ed s) text (currentInsertPos s),
                   currentInsertPos := advanceLines (currentInsertPos s) text\<rparr>
           else s
      else s)"

definition appendDivider :: "GhostSettings \<Rightarrow> invocation \<Rightarrow> invocation" where
  "appendDivider cfg s =
     (if responseStyle cfg = HorizontalRule
      then
        let divider = [nl, nl] @ js ''---''
        in s\<lparr>ed := insertAt (ed s) divider (currentInsertPos s),
              currentInsertPos := advanceLines (currentInsertPos s) divider\<rparr>
      else s)"

definition placeCursor :: "GhostSettings \<Rightarrow> invocation \<Rightarrow> invocation" where
  "placeCursor cfg s =
     (if cursorBehavior cfg = End
      then
        let s1 = (if ch (currentInsertPos s) \<noteq> 0
                  then s\<lparr>ed := insertAt (ed s) [nl] (currentInsertPos s),
                          currentInsertPos := pos (line (currentInsertPos s) + 1) 0\<rparr>
                  else s)
        in s1\<lparr>ed := setCursor (ed s1) (currentInsertPos s1)\<rparr>
      else s)"

definition onDone :: "GhostSettings \<Rightarrow> invocation \<Rightarrow> invocation" where
  "onDone cfg s = (placeCursor cfg (appendDivider cfg (appendSources cfg s)))\<lparr>phase := Returned\<rparr>"

text \<open>
  What can happen to an invocation: the interval fires, the fetch rejects or resolves, a
  read yields a chunk, reports the end, or rejects. A callback only runs while its
  interval is set; a resumption only happens at the \<^verbatim>\<open>await\<close> it belongs to. The
  editor's operations do not throw, and edits by the user are not events: a property
  that holds for every editor state says what happens after such an edit.
\<close>

datatype event =
  Tick | FetchRejected | FetchResolved Response | Chunk jstring | Done | ReadRejected

fun step ::
  "GhostSettings \<Rightarrow> (jstring \<Rightarrow> Delta option) \<Rightarrow> invocation \<Rightarrow> event \<Rightarrow> invocation" where
  "step cfg parse s Tick = (if timerRunning s then tick cfg s else s)"
| "step cfg parse s FetchRejected = (if phase s = AwaitingResponse then catchBlock s else s)"
| "step cfg parse s (FetchResolved r) =
     (if phase s = AwaitingResponse then onResponse s r else s)"
| "step cfg parse s (Chunk c) = (if phase s = Reading then onChunk cfg parse s c else s)"
| "step cfg parse s Done = (if phase s = Reading then onDone cfg s else s)"
| "step cfg parse s ReadRejected = (if phase s = Reading then catchBlock s else s)"

definition run ::
  "GhostSettings \<Rightarrow> (jstring \<Rightarrow> Delta option) \<Rightarrow> invocation \<Rightarrow> event list \<Rightarrow> invocation" where
  "run cfg parse s evs = foldl (step cfg parse) s evs"

text \<open>
  The two entry points of \<^verbatim>\<open>onload\<close>: the command \<^verbatim>\<open>trigger-ghost\<close> and the
  \<^verbatim>\<open>editor-change\<close> handler. Both pass the line of the cursor and its text; the column of
  the cursor is not passed.
\<close>

definition triggerGhost :: "GhostSettings \<Rightarrow> editor \<Rightarrow> invocation" where
  "triggerGhost cfg e =
     processStreamingQuery cfg e (line (cursor e)) (getLine e (line (cursor e)))"

definition editorChange :: "GhostSettings \<Rightarrow> editor \<Rightarrow> invocation option" where
  "editorChange cfg e =
     (if endsWith (getLine e (line (cursor e))) (triggerPhrase cfg)
      then Some (processStreamingQuery cfg e (line (cursor e)) (getLine e (line (cursor e))))
      else None)"

section \<open>Vocabulary of the properties\<close>

text \<open>
  A buffer is well formed when it has a line and no line holds a newline; a position is
  valid when it lies on a line of the buffer, at most at its end.
\<close>

definition wf_doc :: "editor \<Rightarrow> bool" where
  "wf_doc e = (doc e \<noteq> [] \<and> list_all (\<lambda>l. nl \<notin> set l) (doc e))"

definition validPos :: "editor \<Rightarrow> position \<Rightarrow> bool" where
  "validPos e p = (line p < lineCount e \<and> ch p \<le> length (getLine e (line p)))"

text \<open>
  The decoded text that a sequence of events delivers, and the content deltas that a
  response body carries: the non-empty \<open>content\<close> of every complete line that
  \<open>processLine\<close> hands to the parser. A last line without its newline stays in
  \<open>buffer\<close> and is never processed.
\<close>

fun chunkText :: "event \<Rightarrow> jstring" where
  "chunkText (Chunk c) = c"
| "chunkText _ = []"

definition wire :: "event list \<Rightarrow> jstring" where
  "wire evs = concat (map chunkText evs)"

fun isStreamEvent :: "event \<Rightarrow> bool" where
  "isStreamEvent Tick = True"
| "isStreamEvent (Chunk c) = True"
| "isStreamEvent _ = False"

definition lineDelta :: "(jstring \<Rightarrow> Delta option) \<Rightarrow> jstring \<Rightarrow> Delta option" where
  "lineDelta parse ln =
     (let trimmedLine = trim ln
      in if trimmedLine = [] \<or> trimmedLine = js '': OPENROUTER PROCESSING'' then None
         else if startsWith trimmedLine (js ''data: '')
         then (if drop 6 trimmedLine = js ''[DONE]'' then None
               else parse (drop 6 trimmedLine))
         else None)"

definition lineContents :: "(jstring \<Rightarrow> Delta option) \<Rightarrow> jstring list \<Rightarrow> jstring list" where
  "lineContents parse lns =
     filter (\<lambda>c. c \<noteq> []) (map content (List.map_filter (lineDelta parse) lns))"

definition contentDeltas :: "(jstring \<Rightarrow> Delta option) \<Rightarrow> jstring \<Rightarrow> jstring list" where
  "contentDeltas parse body = lineContents parse (butlast (split_nl body))"

text \<open>The marker that callout style puts before the first delta.\<close>

definition firstPrefix :: "GhostSettings \<Rightarrow> jstring" where
  "firstPrefix cfg = (if responseStyle cfg = Callout then js ''> '' else [])"

text \<open>
  The placeholder is in place: the generation line exists and holds the spinner frame of
  the current index behind the style's marker.
\<close>

definition showsSpinner :: "GhostSettings \<Rightarrow> invocation \<Rightarrow> bool" where
  "showsSpinner cfg s =
     (generationLine s < lineCount (ed s)
      \<and> currentFrameIndex s < length spinnerFrames
      \<and> spinnerPrefix s = firstPrefix cfg
      \<and> getLine (ed s) (generationLine s)
          = spinnerPrefix s @ getSpinnerText (currentFrameIndex s))"

text \<open>
  What the stream has written so far, for deltas \<open>ds\<close> that hold no newline: nothing
  yet and the first chunk still awaited, or the generation line holds the deltas in
  order behind the style's marker, the interval is cleared and the tracked position is
  the end of that line.
\<close>

definition streamed :: "GhostSettings \<Rightarrow> nat \<Rightarrow> jstring list \<Rightarrow> invocation \<Rightarrow> bool" where
  "streamed cfg g ds s =
     (generationLine s = g \<and> g < lineCount (ed s)
      \<and> (timerRunning s \<longrightarrow> loadingInterval s)
      \<and> (if ds = [] then isFirstChunk s
          else \<not> isFirstChunk s \<and> \<not> timerRunning s
               \<and> getLine (ed s) g = firstPrefix cfg @ concat ds
               \<and> currentInsertPos s = pos g (length (firstPrefix cfg @ concat ds))))"

text \<open>
  The matches of a line in the spec's words: every place where \<^verbatim>\<open>@\<close> is followed by
  one or more characters of the class, with the run of class characters behind it, from
  left to right.
\<close>

fun refMatchesFrom :: "nat \<Rightarrow> jstring \<Rightarrow> (nat \<times> jstring) list" where
  "refMatchesFrom i [] = []"
| "refMatchesFrom i (c # cs) =
     (if c = at_sign \<and> cs \<noteq> [] \<and> is_model_char (hd cs)
      then [(i, takeWhile is_model_char cs)] else [])
     @ refMatchesFrom (Suc i) cs"

definition refMatches :: "jstring \<Rightarrow> (nat \<times> jstring) list" where
  "refMatches s = refMatchesFrom 0 s"

text \<open>
  The generation line is settled: it holds \<open>l\<close>, and the tracked position is at its end
  or on a later line.
\<close>

definition settled :: "nat \<Rightarrow> jstring \<Rightarrow> invocation \<Rightarrow> bool" where
  "settled g l s =
     (g < lineCount (ed s) \<and> getLine (ed s) g = l
      \<and> (g < line (currentInsertPos s) \<or> currentInsertPos s = pos g (length l)))"

text \<open>The text \<open>p\<close> occurs in the text \<open>s\<close>.\<close>

fun occursIn :: "jstring \<Rightarrow> jstring \<Rightarrow> bool" where
  "occursIn p [] = (p = [])"
| "occursIn p (c # cs) = (startsWith (c # cs) p \<or> occursIn p cs)"

text \<open>Every newline of a text is followed by the block-quote marker.\<close>

fun quoted :: "jstring \<Rightarrow> bool" where
  "quoted [] = True"
| "quoted (c # cs) = ((c = nl \<longrightarrow> take 2 cs = js ''> '') \<and> quoted cs)"

section \<open>Example inputs\<close>

definition exSettings :: GhostSettings where
  "exSettings =
     \<lparr>apiKey = js ''sk-1'', enabledModels = [], triggerPhrase = js '';;'',
      systemPrompt = [], cursorBehavior = Keep, responseStyle = Plain, personas = [],
      webSearchPolicy = Off, webSearchEngine = Auto\<rparr>"

definition exEditor :: editor where
  "exEditor = \<lparr>doc = [js ''intro'', js ''@m hi;;''], cursor = pos 1 7\<rparr>"

text \<open>A stand-in parser for the examples: the payload text is the content.\<close>

definition exParse :: "jstring \<Rightarrow> Delta option" where
  "exParse d = Some \<lparr>content = d, annotations = []\<rparr>"

definition exResponse :: "bool \<Rightarrow> nat \<Rightarrow> Response" where
  "exResponse b n = \<lparr>ok = b, status = n, errorText = Some (js ''denied''), hasBody = True\<rparr>"

text \<open>A response with status 401 whose body cannot be read.\<close>

definition exUnread :: Response where
  "exUnread = \<lparr>ok = False, status = 401, errorText = None, hasBody = True\<rparr>"

text \<open>A line with two references and the cursor between them.\<close>

definition exMid :: editor where
  "exMid = \<lparr>doc = [js ''ask @a now @b''], cursor = pos 0 6\<rparr>"

definition exRule :: GhostSettings where
  "exRule = exSettings\<lparr>responseStyle := HorizontalRule\<rparr>"

definition exRefs :: editor where
  "exRefs =
     \<lparr>doc = [js ''@first x'', js ''plain'', js ''a @b and @c/d-e.f go;;'', js ''@after''],
      cursor = pos 2 23\<rparr>"

definition exNoRefs :: editor where
  "exNoRefs = \<lparr>doc = [js ''mail a@ b'', js ''here;;''], cursor = pos 1 6\<rparr>"

text \<open>The invocation on the second line of the example buffer, as it awaits the response.\<close>

definition exStart :: invocation where
  "exStart = processStreamingQuery exSettings exEditor 1 (js ''@m hi;;'')"

text \<open>The same invocation under callout style.\<close>

definition exCallout :: GhostSettings where
  "exCallout = exSettings\<lparr>responseStyle := Callout\<rparr>"

definition exStartCallout :: invocation where
  "exStartCallout = processStreamingQuery exCallout exEditor 1 (js ''@m hi;;'')"

text \<open>
  The placeholder line with words typed behind it, and the buffer cut down to one line
  while the first chunk is awaited.
\<close>

definition exEdited :: invocation where
  "exEdited =
     exStart\<lparr>ed := (ed exStart)\<lparr>doc := (doc (ed exStart))
                                      [3 := getSpinnerText 0 @ js '' my own notes'']\<rparr>\<rparr>"

definition exCut :: invocation where
  "exCut = exStart\<lparr>ed := \<lparr>doc = [js ''a''], cursor = pos 0 0\<rparr>\<rparr>"

definition exCutCallout :: invocation where
  "exCutCallout = exStartCallout\<lparr>ed := \<lparr>doc = [js ''a''], cursor = pos 0 0\<rparr>\<rparr>"

text \<open>
  Horizontal-rule style with the cursor moved to the end, a stand-in parser whose deltas
  carry no content and one citation of the payload as URL, and two response bodies
  without content: one of comments only, one with three citations of two URLs.
\<close>

definition exRuleEnd :: GhostSettings where
  "exRuleEnd = exRule\<lparr>cursorBehavior := End\<rparr>"

definition exCite :: "jstring \<Rightarrow> Delta option" where
  "exCite d =
     Some \<lparr>content = [],
           annotations = [\<lparr>ann_type = js ''url_citation'',
                           url_citation = Some \<lparr>url = d, title = []\<rparr>\<rparr>]\<rparr>"

definition exQuiet :: "event list" where
  "exQuiet =
     [Chunk (js '': OPENROUTER PROCESSING'' @ [nl]), Tick, Chunk (js ''data: [DONE]'' @ [nl])]"

definition exCitations :: "event list" where
  "exCitations =
     [Chunk (js ''data: https://a'' @ [nl]), Tick,
      Chunk (js ''data: https://a'' @ nl # js ''data: https://b'' @ [nl])]"

section \<open>Facts about strings\<close>

lemma length_trimEnd_le: "length (trimEnd s) \<le> length s"
  unfolding trimEnd_def by (simp add: order_trans[OF length_dropWhile_le])

lemma length_trim_le: "length (trim s) \<le> length s"
  unfolding trim_def
  by (rule order_trans[OF length_trimEnd_le]) (rule length_dropWhile_le)

lemma length_web: "length (js ''+web'') = 4"
  by (simp add: js_def)

lemma endsWith_length: "endsWith s p \<Longrightarrow> length p \<le> length s"
  by (simp add: endsWith_def)

lemma split_nl_nonempty [simp]: "split_nl s \<noteq> []"
  by (induction s) (auto split: list.splits)

lemma split_nl_no_nl: "nl \<notin> set s \<Longrightarrow> split_nl s = [s]"
  by (induction s) auto

lemma split_nl_Cons_other: "c \<noteq> nl \<Longrightarrow> split_nl (c # cs) = (c # hd (split_nl cs)) # tl (split_nl cs)"
  by (cases "split_nl cs") auto

lemma split_nl_append:
  "split_nl (a @ b) = butlast (split_nl a) @ (last (split_nl a) @ hd (split_nl b)) # tl (split_nl b)"
proof (induction a)
  case Nil
  then show ?case by (cases "split_nl b") auto
next
  case (Cons c a)
  show ?case
  proof (cases "c = nl")
    case True
    then show ?thesis using Cons by simp
  next
    case False
    then show ?thesis
      using Cons
      by (cases "split_nl a"; cases "butlast (split_nl a)") (auto simp: split_nl_Cons_other split: if_splits)
  qed
qed

lemma split_nl_append_plain:
  "nl \<notin> set b \<Longrightarrow> split_nl (a @ b) = butlast (split_nl a) @ [last (split_nl a) @ b]"
  by (simp add: split_nl_append split_nl_no_nl)

lemma split_nl_plain_append:
  "nl \<notin> set a \<Longrightarrow> split_nl (a @ b) = (a @ hd (split_nl b)) # tl (split_nl b)"
  by (simp add: split_nl_append split_nl_no_nl)

lemma split_nl_append_nl: "split_nl (a @ nl # b) = split_nl a @ split_nl b"
  using split_nl_append[of a "nl # b"] by simp

lemma length_split_nl: "length (split_nl s) = Suc (count_list s nl)"
  by (induction s) (auto split: list.splits)

lemma length_split_nl_gt1: "1 < length (split_nl s) \<longleftrightarrow> nl \<in> set s"
  using count_list_0_iff[of s nl] by (auto simp: length_split_nl)

lemma split_nl_segments: "l \<in> set (split_nl s) \<Longrightarrow> nl \<notin> set l"
  by (induction s arbitrary: l) (auto split: if_splits list.splits)

lemma join_split_nl [simp]: "join_nl (split_nl s) = s"
proof (induction s)
  case Nil then show ?case by simp
next
  case (Cons c s)
  then show ?case
    by (cases "split_nl s"; cases "tl (split_nl s)") (auto split: list.splits)
qed

lemma butlast_split_nl_append:
  "butlast (split_nl (x @ y)) = butlast (split_nl x) @ butlast (split_nl (last (split_nl x) @ y))"
proof -
  have n: "nl \<notin> set (last (split_nl x))"
    by (rule split_nl_segments[of _ x]) simp
  show ?thesis
    by (simp add: split_nl_append[of x y] split_nl_plain_append[OF n] butlast_append)
qed

lemma last_split_nl_append:
  "last (split_nl (x @ y)) = last (split_nl (last (split_nl x) @ y))"
proof -
  have n: "nl \<notin> set (last (split_nl x))"
    by (rule split_nl_segments[of _ x]) simp
  show ?thesis
    by (simp add: split_nl_append[of x y] split_nl_plain_append[OF n])
qed

section \<open>Facts about the buffer\<close>

lemma pos_simps [simp]: "line (pos l c) = l" "ch (pos l c) = c"
  by (simp_all add: pos_def)

lemma getLine_nth: "n < lineCount e \<Longrightarrow> getLine e n = doc e ! n"
  by (simp add: getLine_def lineCount_def)

lemma wf_doc_line: "wf_doc e \<Longrightarrow> n < lineCount e \<Longrightarrow> nl \<notin> set (getLine e n)"
  by (simp add: wf_doc_def getLine_def lineCount_def list_all_length)

lemma wf_doc_lineCount: "wf_doc e \<Longrightarrow> 0 < lineCount e"
  by (simp add: wf_doc_def lineCount_def)

lemma doc_replaceRange:
  "doc (replaceRange e t f u) =
     take (line f) (doc e)
     @ split_nl (take (ch f) (getLine e (line f)) @ t @ drop (ch u) (getLine e (line u)))
     @ drop (Suc (line u)) (doc e)"
  by (simp add: replaceRange_def)

lemma cursor_replaceRange [simp]: "cursor (replaceRange e t f u) = cursor e"
  by (simp add: replaceRange_def)

lemma lineCount_replaceRange_same:
  "g < lineCount e \<Longrightarrow>
   lineCount (replaceRange e t (pos g a) (pos g b))
     = lineCount e + count_list (take a (getLine e g) @ t @ drop b (getLine e g)) nl"
  by (simp add: lineCount_def doc_replaceRange length_split_nl)

lemma lineCount_replaceRange_ge:
  "g < lineCount e \<Longrightarrow> lineCount e \<le> lineCount (replaceRange e t (pos g a) (pos g b))"
  by (simp add: lineCount_replaceRange_same)

lemma doc_replaceRange_plain:
  assumes "g < lineCount e" and "nl \<notin> set (take a (getLine e g) @ t @ drop b (getLine e g))"
  shows "doc (replaceRange e t (pos g a) (pos g b))
           = (doc e)[g := take a (getLine e g) @ t @ drop b (getLine e g)]"
  using assms
  by (simp add: doc_replaceRange split_nl_no_nl lineCount_def upd_conv_take_nth_drop)

lemma doc_replace_whole_line:
  assumes "g < lineCount e" and "nl \<notin> set t"
  shows "doc (replaceRange e t (pos g 0) (pos g (length (getLine e g)))) = (doc e)[g := t]"
  using doc_replaceRange_plain[of g e 0 t "length (getLine e g)"] assms by simp

lemma lineCount_insertAt_ge: "lineCount e \<le> lineCount (insertAt e t p)"
proof -
  have "0 < length (split_nl (take (ch p) (getLine e (line p)) @ t @ drop (ch p) (getLine e (line p))))"
    by simp
  then show ?thesis
    unfolding lineCount_def insertAt_def doc_replaceRange length_append length_take length_drop
    by linarith
qed

lemma getLine_insertAt_before:
  assumes "n < line p" and "n < lineCount e"
  shows "getLine (insertAt e t p) n = getLine e n"
proof -
  have "n < length (take (line p) (doc e))"
    using assms by (simp add: lineCount_def)
  then have "doc (insertAt e t p) ! n = doc e ! n"
    by (simp add: insertAt_def doc_replaceRange nth_append)
  moreover have "n < lineCount (insertAt e t p)"
    using lineCount_insertAt_ge[of e t p] assms(2) by simp
  ultimately show ?thesis
    using assms(2) by (simp add: getLine_nth)
qed

lemma getLine_insertAt_at:
  assumes "line p < lineCount e" and "nl \<notin> set (take (ch p) (getLine e (line p)))"
  shows "getLine (insertAt e t p) (line p)
           = take (ch p) (getLine e (line p))
             @ hd (split_nl (t @ drop (ch p) (getLine e (line p))))"
proof -
  let ?pre = "take (ch p) (getLine e (line p))"
  let ?rest = "t @ drop (ch p) (getLine e (line p))"
  have len: "length (take (line p) (doc e)) = line p"
    using assms(1) by (simp add: lineCount_def)
  have "doc (insertAt e t p) ! line p = hd (split_nl (?pre @ ?rest))"
    using len by (simp add: insertAt_def doc_replaceRange nth_append hd_conv_nth)
  also have "\<dots> = ?pre @ hd (split_nl ?rest)"
    by (simp add: split_nl_plain_append[OF assms(2)])
  finally have "doc (insertAt e t p) ! line p = ?pre @ hd (split_nl ?rest)" .
  moreover have "line p < lineCount (insertAt e t p)"
    using lineCount_insertAt_ge[of e t p] assms(1) by simp
  ultimately show ?thesis
    by (simp add: getLine_nth)
qed

lemma getLine_insertAt_end_nl:
  assumes "g < lineCount e" and "nl \<notin> set (getLine e g)"
  shows "getLine (insertAt e (nl # r) (pos g (length (getLine e g)))) g = getLine e g"
  using getLine_insertAt_at[of "pos g (length (getLine e g))" e "nl # r"] assms by simp

lemma doc_insertAt_end_plain:
  assumes "g < lineCount e" and "nl \<notin> set (getLine e g)" and "nl \<notin> set t"
  shows "doc (insertAt e t (pos g (length (getLine e g)))) = (doc e)[g := getLine e g @ t]"
  using doc_replaceRange_plain[of g e "length (getLine e g)" t "length (getLine e g)"] assms
  by (simp add: insertAt_def)

lemma getLine_update:
  "g < lineCount e \<Longrightarrow> doc e' = (doc e)[g := l] \<Longrightarrow> getLine e' g = l \<and> lineCount e' = lineCount e"
  by (simp add: getLine_def lineCount_def)

text \<open>The position update points behind the inserted text.\<close>

lemma last_split_prefixed:
  assumes "nl \<notin> set pre"
  shows "length (last (split_nl (pre @ t)))
           = (if 1 < length (split_nl t) then length (last (split_nl t))
              else length pre + length t)"
proof (cases "nl \<in> set t")
  case True
  then have "tl (split_nl t) \<noteq> []"
    using length_split_nl_gt1[of t] by (cases "split_nl t") auto
  then show ?thesis
    using True length_split_nl_gt1[of t]
    by (simp add: split_nl_plain_append[OF assms] last_tl)
next
  case False
  then show ?thesis
    using length_split_nl_gt1[of t] assms by (simp add: split_nl_no_nl)
qed

lemma length_split_glued:
  assumes "nl \<notin> set pre" and "nl \<notin> set post"
  shows "length (split_nl (pre @ t @ post)) = length (split_nl t)"
  using assms by (simp add: length_split_nl count_list_0_iff)

lemma getRange_insertAt:
  assumes wf: "wf_doc e" and v: "validPos e p"
  shows "getRange (insertAt e t p) p (advancePos p t) = t"
proof -
  let ?L = "getLine e (line p)"
  let ?pre = "take (ch p) ?L"
  let ?post = "drop (ch p) ?L"
  let ?S = "split_nl (?pre @ t @ ?post)"
  have lp: "line p < lineCount e" and cp: "ch p \<le> length ?L"
    using v by (simp_all add: validPos_def)
  have nL: "nl \<notin> set ?L"
    by (rule wf_doc_line[OF wf lp])
  have npre: "nl \<notin> set ?pre" and npost: "nl \<notin> set ?post"
    using nL by (auto dest: in_set_takeD in_set_dropD)
  have lenpre: "length ?pre = ch p"
    using cp by simp
  have a: "advancePos p t = pos (line p + length (split_nl t) - 1) (length (last (split_nl (?pre @ t))))"
    using last_split_prefixed[OF npre, of t] lenpre length_split_nl[of t]
    by (auto simp: advancePos_def Let_def)
  have lenS: "length ?S = length (split_nl t)"
    by (rule length_split_glued[OF npre npost])
  have S: "?S = butlast (split_nl (?pre @ t)) @ [last (split_nl (?pre @ t)) @ ?post]"
    using split_nl_append_plain[OF npost, of "?pre @ t"] by simp
  have d: "drop (line p) (doc (insertAt e t p)) = ?S @ drop (Suc (line p)) (doc e)"
    using lp by (simp add: insertAt_def doc_replaceRange lineCount_def)
  have "Suc (line (advancePos p t)) - line p = length ?S"
    using a lenS by (simp add: Suc_diff_le)
  then have ls: "take (Suc (line (advancePos p t)) - line p) (drop (line p) (doc (insertAt e t p))) = ?S"
    using d by simp
  have "butlast ?S @ [take (ch (advancePos p t)) (last ?S)] = split_nl (?pre @ t)"
    using a by (subst (1 2) S) simp
  then have "getRange (insertAt e t p) p (advancePos p t) = drop (ch p) (join_nl (split_nl (?pre @ t)))"
    unfolding getRange_def ls Let_def by simp
  then show ?thesis
    using lenpre by simp
qed

section \<open>The web-search marker\<close>

text \<open>
  Claim C9, as the code has it. A prompt that does not end in \<^verbatim>\<open>+web\<close> is returned
  unchanged with the flag unset. A prompt that ends in \<^verbatim>\<open>+web\<close> loses its last four
  code units and is trimmed, once. Stripping the result again changes nothing exactly
  when the result does not itself end in \<^verbatim>\<open>+web\<close>: the code removes one marker per
  application, so the operation is idempotent on prompts with a single trailing marker
  and not on prompts that end in several.
\<close>

theorem stripWeb_once:
  "(\<not> endsWith p (js ''+web'') \<longrightarrow> stripWeb p = (False, p))
   \<and> (endsWith p (js ''+web'') \<longrightarrow> stripWeb p = (True, trim (take (length p - 4) p)))
   \<and> (snd (stripWeb (snd (stripWeb p))) = snd (stripWeb p)
        \<longleftrightarrow> \<not> endsWith (snd (stripWeb p)) (js ''+web''))"
proof -
  have lossless: "\<not> endsWith q (js ''+web'') \<Longrightarrow> stripWeb q = (False, q)" for q
    by (simp add: stripWeb_def)
  have shrink: "snd (stripWeb q) \<noteq> q" if e: "endsWith q (js ''+web'')" for q
  proof -
    have "4 \<le> length q"
      using endsWith_length[OF e] by (simp add: length_web)
    moreover have "length (trim (take (length q - 4) q)) \<le> length q - 4"
      using length_trim_le[of "take (length q - 4) q"] by simp
    ultimately have "length (snd (stripWeb q)) < length q"
      using e by (simp add: stripWeb_def)
    then show ?thesis by auto
  qed
  show ?thesis
    using lossless[of p] lossless[of "snd (stripWeb p)"] shrink[of "snd (stripWeb p)"]
    by (auto simp: stripWeb_def)
qed

theorem stripWeb_once_witness:
  "\<not> endsWith (js ''hi'') (js ''+web'') \<and> stripWeb (js ''hi'') = (False, js ''hi'')
   \<and> endsWith (js ''hi +web'') (js ''+web'') \<and> stripWeb (js ''hi +web'') = (True, js ''hi'')
   \<and> snd (stripWeb (snd (stripWeb (js ''hi +web'')))) = snd (stripWeb (js ''hi +web''))"
proof -
  have a: "\<not> endsWith (js ''hi'') (js ''+web'')"
    by (simp add: endsWith_def js_def)
  have b: "endsWith (js ''hi +web'') (js ''+web'')"
    by (simp add: endsWith_def js_def)
  have c: "trim (take (length (js ''hi +web'') - 4) (js ''hi +web'')) = js ''hi''"
    by (simp add: trim_def trimEnd_def is_ws_def js_def)
  show ?thesis
    using a b c stripWeb_once[of "js ''hi''"] stripWeb_once[of "js ''hi +web''"]
    by simp
qed

text \<open>
  The trimmed prompt \<^verbatim>\<open>x +web +web\<close> is stripped to \<^verbatim>\<open>x +web\<close>, and stripping that
  gives \<^verbatim>\<open>x\<close>: the second application is not a no-op.
\<close>

theorem stripWeb_not_idempotent:
  "trim (js ''x +web +web'') = js ''x +web +web''
   \<and> snd (stripWeb (snd (stripWeb (js ''x +web +web''))))
       \<noteq> snd (stripWeb (js ''x +web +web''))"
  by (simp add: stripWeb_def endsWith_def trim_def trimEnd_def is_ws_def js_def)

section \<open>Facts about an invocation\<close>

lemma step_returned: "phase s = Returned \<Longrightarrow> \<not> timerRunning s \<Longrightarrow> step cfg parse s ev = s"
  by (cases ev) simp_all

lemma run_returned: "phase s = Returned \<Longrightarrow> \<not> timerRunning s \<Longrightarrow> run cfg parse s evs = s"
  unfolding run_def by (induction evs) (simp_all add: step_returned)

lemma run_append: "run cfg parse s (xs @ ys) = run cfg parse (run cfg parse s xs) ys"
  by (simp add: run_def)

lemma run_Cons: "run cfg parse s (x # xs) = run cfg parse (step cfg parse s x) xs"
  by (simp add: run_def)

lemma run_Nil: "run cfg parse s [] = s"
  by (simp add: run_def)

lemma returnedWith_simps:
  "ed (returnedWith e ns) = e" "notices (returnedWith e ns) = ns"
  "phase (returnedWith e ns) = Returned" "\<not> timerRunning (returnedWith e ns)"
  "request (returnedWith e ns) = None"
  by (simp_all add: returnedWith_def)

lemma psq_no_key:
  "apiKey cfg = [] \<Longrightarrow>
   processStreamingQuery cfg e n t =
     returnedWith e [if findModel e n = None
                     then js ''Ghost: no model specified (e.g. @model-name).''
                     else js ''API key missing.'']"
  by (simp add: processStreamingQuery_def split: option.splits prod.splits)

lemma psq_phase:
  "phase (processStreamingQuery cfg e n t) = AwaitingResponse
     \<longleftrightarrow> findModel e n \<noteq> None \<and> apiKey cfg \<noteq> []"
  by (auto simp: processStreamingQuery_def returnedWith_def Let_def split: option.splits prod.splits)

lemma psq_fields:
  assumes "phase (processStreamingQuery cfg e n t) = AwaitingResponse"
  shows "generationLine (processStreamingQuery cfg e n t) = n + snd (snd (styleLayout (responseStyle cfg)))"
    and "spinnerPrefix (processStreamingQuery cfg e n t) = fst (snd (styleLayout (responseStyle cfg)))"
    and "loadingInterval (processStreamingQuery cfg e n t)"
    and "timerRunning (processStreamingQuery cfg e n t)"
    and "isFirstChunk (processStreamingQuery cfg e n t)"
    and "currentFrameIndex (processStreamingQuery cfg e n t) = 0"
    and "notices (processStreamingQuery cfg e n t) = []"
    and "ed (processStreamingQuery cfg e n t) =
           insertAt (if endsWith t (triggerPhrase cfg)
                     then replaceRange e [] (pos n (length t - length (triggerPhrase cfg)))
                            (pos n (length t))
                     else e)
             (fst (styleLayout (responseStyle cfg)) @ getSpinnerText 0)
             (pos n (if endsWith t (triggerPhrase cfg)
                     then length t - length (triggerPhrase cfg) else length t))"
  using assms
  by (auto simp: processStreamingQuery_def returnedWith_def Let_def
           split: option.splits prod.splits if_splits)

lemma spinner_no_nl: "i < length spinnerFrames \<Longrightarrow> nl \<notin> set (getSpinnerText i)"
proof -
  assume "i < length spinnerFrames"
  then have "spinnerFrames ! i \<in> set spinnerFrames"
    by (rule nth_mem)
  then have "spinnerFrames ! i \<noteq> nl"
    by (auto simp: spinnerFrames_def nl_def)
  then show ?thesis
    by (auto simp: getSpinnerText_def js_def nl_def)
qed

lemma count_placeholder:
  "count_list (fst (styleLayout st) @ getSpinnerText 0) nl = snd (snd (styleLayout st))"
  by (cases st) (simp_all add: styleLayout_def getSpinnerText_def spinnerFrames_def js_def nl_def)

lemma styleLayout_prefix: "fst (snd (styleLayout (responseStyle cfg))) = firstPrefix cfg"
  by (cases "responseStyle cfg") (simp_all add: styleLayout_def firstPrefix_def)

lemma firstPrefix_no_nl: "nl \<notin> set (firstPrefix cfg)"
  by (simp add: firstPrefix_def js_def nl_def)

lemma pos_eta [simp]: "pos (line p) (ch p) = p"
  by (simp add: pos_def)

lemma lineCount_insertAt:
  "line p < lineCount e \<Longrightarrow>
   lineCount (insertAt e t p)
     = lineCount e + count_list (take (ch p) (getLine e (line p)) @ t
                                 @ drop (ch p) (getLine e (line p))) nl"
  using lineCount_replaceRange_same[of "line p" e t "ch p" "ch p"]
  by (simp add: insertAt_def)

lemma lineCount_insertAt_lower:
  "line p < lineCount e \<Longrightarrow> lineCount e + count_list t nl \<le> lineCount (insertAt e t p)"
  by (simp add: lineCount_insertAt)

lemma psq_lineCount:
  assumes "phase (processStreamingQuery cfg e n t) = AwaitingResponse" and "n < lineCount e"
  shows "generationLine (processStreamingQuery cfg e n t)
           < lineCount (ed (processStreamingQuery cfg e n t))"
proof -
  define e1 where "e1 = (if endsWith t (triggerPhrase cfg)
             then replaceRange e [] (pos n (length t - length (triggerPhrase cfg))) (pos n (length t))
             else e)"
  define pe where "pe = (if endsWith t (triggerPhrase cfg)
                     then length t - length (triggerPhrase cfg) else length t)"
  define ph where "ph = fst (styleLayout (responseStyle cfg)) @ getSpinnerText 0"
  have "lineCount e \<le> lineCount e1"
    using lineCount_replaceRange_ge[OF assms(2)] by (simp add: e1_def)
  then have n1: "n < lineCount e1"
    using assms(2) by simp
  have "lineCount e1 + count_list ph nl \<le> lineCount (insertAt e1 ph (pos n pe))"
    by (rule lineCount_insertAt_lower) (simp add: n1)
  moreover have "count_list ph nl = snd (snd (styleLayout (responseStyle cfg)))"
    unfolding ph_def by (rule count_placeholder)
  moreover have "ed (processStreamingQuery cfg e n t) = insertAt e1 ph (pos n pe)"
    unfolding psq_fields[OF assms(1)] e1_def pe_def ph_def ..
  ultimately show ?thesis
    using n1 by (simp add: psq_fields[OF assms(1)])
qed

lemma tick_fields [simp]:
  "generationLine (tick cfg s) = generationLine s"
  "spinnerPrefix (tick cfg s) = spinnerPrefix s"
  "phase (tick cfg s) = phase s"
  "notices (tick cfg s) = notices s"
  "isFirstChunk (tick cfg s) = isFirstChunk s"
  "loadingInterval (tick cfg s) = loadingInterval s"
  "currentInsertPos (tick cfg s) = currentInsertPos s"
  "buffer (tick cfg s) = buffer s"
  "collectedAnnotations (tick cfg s) = collectedAnnotations s"
  "request (tick cfg s) = request s"
  "currentFrameIndex (tick cfg s) = (currentFrameIndex s + 1) mod length spinnerFrames"
  by (simp_all add: tick_def Let_def)

lemma tick_timer:
  "generationLine s < lineCount (ed s) \<Longrightarrow> timerRunning (tick cfg s) = timerRunning s"
  by (simp add: tick_def Let_def)

lemma tick_timer_mono: "timerRunning (tick cfg s) \<Longrightarrow> timerRunning s"
  by (simp add: tick_def Let_def split: if_splits)

lemma tick_lineCount:
  "generationLine s < lineCount (ed s) \<Longrightarrow> generationLine s < lineCount (ed (tick cfg s))"
  using lineCount_replaceRange_ge[of "generationLine s" "ed s"]
  by (auto simp: tick_def Let_def intro: less_le_trans)

lemma looksLikeSpinner_iff:
  "looksLikeSpinner c \<longleftrightarrow> c \<noteq> [] \<and> hd c \<in> set spinnerFrames"
  by (cases c) (auto simp: looksLikeSpinner_def startsWith_def list_ex_iff)

lemma looksLikeSpinner_text:
  "i < length spinnerFrames \<Longrightarrow> looksLikeSpinner (getSpinnerText i)"
  by (simp add: looksLikeSpinner_iff getSpinnerText_def)

lemma firstPrefix_callout:
  "(if responseStyle cfg = Callout then drop 2 (firstPrefix cfg @ x) else firstPrefix cfg @ x) = x"
  by (simp add: firstPrefix_def js_def)

lemma tick_showsSpinner:
  assumes "showsSpinner cfg s"
  shows "showsSpinner cfg (tick cfg s)"
proof -
  let ?g = "generationLine s"
  let ?i = "(currentFrameIndex s + 1) mod length spinnerFrames"
  let ?new = "spinnerPrefix s @ getSpinnerText ?i"
  have g: "?g < lineCount (ed s)" and i: "currentFrameIndex s < length spinnerFrames"
    and p: "spinnerPrefix s = firstPrefix cfg"
    and l: "getLine (ed s) ?g = firstPrefix cfg @ getSpinnerText (currentFrameIndex s)"
    using assms by (simp_all add: showsSpinner_def)
  have i': "?i < length spinnerFrames"
    by (simp add: spinnerFrames_def)
  have chk: "looksLikeSpinner (if responseStyle cfg = Callout then drop 2 (getLine (ed s) ?g)
                               else getLine (ed s) ?g)"
    unfolding l firstPrefix_callout by (rule looksLikeSpinner_text[OF i])
  have nn: "nl \<notin> set ?new"
    using spinner_no_nl[OF i'] firstPrefix_no_nl[of cfg] p by simp
  have e: "ed (tick cfg s) = replaceRange (ed s) ?new (pos ?g 0) (pos ?g (length (getLine (ed s) ?g)))"
    using g chk by (simp add: tick_def Let_def)
  have "doc (ed (tick cfg s)) = (doc (ed s))[?g := ?new]"
    unfolding e by (rule doc_replace_whole_line[OF g nn])
  from getLine_update[OF g this] show ?thesis
    using g i' p by (simp add: showsSpinner_def)
qed

lemma psq_placeholder_line:
  assumes ph: "phase (processStreamingQuery cfg e n t) = AwaitingResponse"
    and wf: "wf_doc e" and n: "n < lineCount e" and t: "t = getLine e n"
  shows "getLine (ed (processStreamingQuery cfg e n t))
           (generationLine (processStreamingQuery cfg e n t))
         = firstPrefix cfg @ getSpinnerText 0"
proof -
  define pe where "pe = (if endsWith t (triggerPhrase cfg)
                     then length t - length (triggerPhrase cfg) else length t)"
  define e1 where "e1 = (if endsWith t (triggerPhrase cfg)
             then replaceRange e [] (pos n pe) (pos n (length t))
             else e)"
  define ph' where "ph' = fst (styleLayout (responseStyle cfg)) @ getSpinnerText 0"
  define off where "off = snd (snd (styleLayout (responseStyle cfg)))"
  have nt: "nl \<notin> set t"
    unfolding t by (rule wf_doc_line[OF wf n])
  have pele: "pe \<le> length t"
    by (simp add: pe_def)
  have "doc (replaceRange e [] (pos n pe) (pos n (length t))) = (doc e)[n := take pe t]"
    using doc_replaceRange_plain[of n e pe "[]" "length t"] n nt t
    by (auto dest: in_set_takeD)
  from getLine_update[OF n this]
  have l1: "getLine e1 n = take pe t" and c1: "lineCount e1 = lineCount e"
    using t by (auto simp: e1_def pe_def)
  have n1: "n < lineCount e1"
    using n c1 by simp
  have npre: "nl \<notin> set (take pe t)"
    using nt by (auto dest: in_set_takeD)
  have edq: "ed (processStreamingQuery cfg e n t) = insertAt e1 ph' (pos n pe)"
    unfolding psq_fields[OF ph] e1_def pe_def ph'_def by simp
  have len: "length (take n (doc e1)) = n"
    using n1 by (simp add: lineCount_def)
  have sp: "split_nl (take pe t @ ph') = (take pe t @ hd (split_nl ph')) # tl (split_nl ph')"
    by (rule split_nl_plain_append[OF npre])
  have offpos: "0 < off" and offlen: "off < length (split_nl ph')"
    and offnth: "split_nl ph' ! off = firstPrefix cfg @ getSpinnerText 0"
    unfolding off_def ph'_def
    by (cases "responseStyle cfg";
        simp add: styleLayout_def getSpinnerText_def spinnerFrames_def js_def nl_def
                  firstPrefix_def)+
  have offm: "off - 1 < length (split_nl ph') - 1"
    using offpos offlen by simp
  have "doc (insertAt e1 ph' (pos n pe)) ! (n + off) = tl (split_nl ph') ! (off - 1)"
    using len offpos offm l1 pele
    by (simp add: insertAt_def doc_replaceRange nth_append sp)
  also have "\<dots> = split_nl ph' ! off"
    using offpos offlen by (simp add: nth_tl)
  finally have "doc (insertAt e1 ph' (pos n pe)) ! (n + off) = firstPrefix cfg @ getSpinnerText 0"
    using offnth by simp
  moreover have "n + off < lineCount (ed (processStreamingQuery cfg e n t))"
    using psq_lineCount[OF ph n] by (simp add: psq_fields[OF ph] off_def)
  ultimately show ?thesis
    by (simp add: getLine_nth edq psq_fields(1)[OF ph] off_def)
qed

lemma psq_showsSpinner:
  assumes "phase (processStreamingQuery cfg e n t) = AwaitingResponse"
    and "wf_doc e" and "n < lineCount e" and "t = getLine e n"
  shows "showsSpinner cfg (processStreamingQuery cfg e n t)"
  using psq_placeholder_line[OF assms] psq_lineCount[OF assms(1,3)]
  by (simp add: showsSpinner_def psq_fields[OF assms(1)] styleLayout_prefix spinnerFrames_def)

lemma run_ticks:
  assumes "list_all (\<lambda>ev. ev = Tick) pre" and "showsSpinner cfg s"
  shows "showsSpinner cfg (run cfg parse s pre)
    \<and> phase (run cfg parse s pre) = phase s
    \<and> loadingInterval (run cfg parse s pre) = loadingInterval s
    \<and> timerRunning (run cfg parse s pre) = timerRunning s
    \<and> isFirstChunk (run cfg parse s pre) = isFirstChunk s
    \<and> notices (run cfg parse s pre) = notices s
    \<and> generationLine (run cfg parse s pre) = generationLine s"
  using assms
proof (induction pre arbitrary: s)
  case Nil
  then show ?case by (simp add: run_Nil)
next
  case (Cons ev pre)
  then have ev: "ev = Tick" and rest: "list_all (\<lambda>ev. ev = Tick) pre"
    by simp_all
  have g: "generationLine s < lineCount (ed s)"
    using Cons.prems(2) by (simp add: showsSpinner_def)
  have sp: "showsSpinner cfg (step cfg parse s ev)"
    using Cons.prems(2) ev by (simp add: tick_showsSpinner)
  show ?case
    using Cons.IH[OF rest sp] ev g
    by (simp add: run_Cons tick_timer)
qed

lemma onResponse_error:
  assumes "\<not> ok r" and "loadingInterval s"
  shows "\<not> timerRunning (onResponse s r)"
    and "notices (onResponse s r)
           = notices s @ [case errorText r of
                            Some t \<Rightarrow> js ''Ghost Error: '' @ numToString (status r) @ js '' - ''
                                      @ take 100 t
                          | None \<Rightarrow> js ''Streaming error.'']"
    and "phase (onResponse s r) = Returned"
    and "ed (onResponse s r) = ed s"
  using assms
  by (simp_all add: onResponse_def clearLoadingInterval_def catchBlock_def split: option.splits)

lemma onResponse_error_spinner:
  "\<not> ok r \<Longrightarrow> showsSpinner cfg (onResponse s r) = showsSpinner cfg s"
  by (simp add: onResponse_def clearLoadingInterval_def catchBlock_def showsSpinner_def
           split: option.splits)

lemma ex_findModel: "findModel exEditor 1 = Some (1, 0, js ''m'')"
  by (simp add: exEditor_def matchAll_def getLine_def js_def at_sign_def is_model_char_def)

lemma ex_wf: "wf_doc exEditor"
  by (simp add: wf_doc_def exEditor_def js_def nl_def)

lemma ex_line: "1 < lineCount exEditor" "js ''@m hi;;'' = getLine exEditor 1"
  by (simp_all add: lineCount_def getLine_def exEditor_def)

section \<open>Missing key\<close>

text \<open>
  Claim C6. When the configured API key is empty, the invocation ends in its synchronous
  part with a notice (``API key missing.'' when a model reference was found, the
  no-model notice otherwise): the editor is the one it was given, no request is built,
  no interval is set, and no later event changes the editor. The key is therefore
  checked before the trigger phrase is removed, before the placeholder is inserted and
  before the fetch.
\<close>

theorem missing_api_key_no_mutation:
  assumes "apiKey cfg = []"
  shows "ed (processStreamingQuery cfg e lineNum lineText) = e
    \<and> (findModel e lineNum \<noteq> None \<longrightarrow>
         notices (processStreamingQuery cfg e lineNum lineText) = [js ''API key missing.''])
    \<and> notices (processStreamingQuery cfg e lineNum lineText) \<noteq> []
    \<and> request (processStreamingQuery cfg e lineNum lineText) = None
    \<and> phase (processStreamingQuery cfg e lineNum lineText) = Returned
    \<and> \<not> timerRunning (processStreamingQuery cfg e lineNum lineText)
    \<and> (\<forall>evs. ed (run cfg parse (processStreamingQuery cfg e lineNum lineText) evs) = e)"
  using assms
  by (simp add: psq_no_key returnedWith_simps run_returned)

theorem missing_api_key_no_mutation_witness:
  "apiKey (exSettings\<lparr>apiKey := []\<rparr>) = []
   \<and> ed (processStreamingQuery (exSettings\<lparr>apiKey := []\<rparr>) exEditor 1 (js ''@m hi;;''))
       = exEditor
   \<and> notices (processStreamingQuery (exSettings\<lparr>apiKey := []\<rparr>) exEditor 1 (js ''@m hi;;''))
       = [js ''API key missing.'']
   \<and> ed (run (exSettings\<lparr>apiKey := []\<rparr>) exParse
            (processStreamingQuery (exSettings\<lparr>apiKey := []\<rparr>) exEditor 1 (js ''@m hi;;''))
            [Tick, FetchResolved (exResponse True 200), Chunk (js ''data: Hello'' @ [nl]), Done])
       = exEditor"
proof -
  have k: "apiKey (exSettings\<lparr>apiKey := []\<rparr>) = []"
    by simp
  have f: "findModel exEditor 1 \<noteq> None"
    unfolding ex_findModel by simp
  show ?thesis
    using missing_api_key_no_mutation[OF k, of exEditor 1 "js ''@m hi;;''" exParse] f k
    by blast
qed

section \<open>A rejected request\<close>

lemma occursIn_mid: "occursIn p (a @ p @ b)"
proof (induction a)
  case Nil
  have s: "startsWith (p @ b) p"
    by (simp add: startsWith_def)
  show ?case
    using s by (cases "p @ b") simp_all
next
  case (Cons c a)
  then show ?case by simp
qed

text \<open>
  Claim C5. An invocation on a line of a well-formed buffer that found its model and has
  a key has inserted the placeholder and awaits the response; until it arrives only the
  interval callback runs. When the response is not OK (\<open>ok\<close> false, as for status 401),
  then whatever events follow: the interval is cleared, exactly one notice is shown, the
  function has returned (no read of the body stream is ever awaited), the editor is
  exactly the one at the moment the response arrived, and the generation line still
  shows a spinner frame: no content has replaced the placeholder. When the text of the
  body could be read (\<^verbatim>\<open>await response.text()\<close> resolved), the notice is
  \<^verbatim>\<open>Ghost Error: <status> - <first 100 characters of the body>\<close>, in which the status
  code occurs. When reading the text rejects, the \<^verbatim>\<open>catch\<close> block runs and the notice
  is \<^verbatim>\<open>Streaming error.\<close> instead.
\<close>

theorem http_error_leaves_placeholder:
  assumes "wf_doc e" and "lineNum < lineCount e" and "lineText = getLine e lineNum"
    and "findModel e lineNum \<noteq> None" and "apiKey cfg \<noteq> []"
    and "list_all (\<lambda>ev. ev = Tick) pre" and "\<not> ok r"
  shows "\<not> timerRunning (run cfg parse (processStreamingQuery cfg e lineNum lineText)
                           (pre @ FetchResolved r # post))
    \<and> notices (run cfg parse (processStreamingQuery cfg e lineNum lineText)
                 (pre @ FetchResolved r # post))
        = [case errorText r of
             Some t \<Rightarrow> js ''Ghost Error: '' @ numToString (status r) @ js '' - '' @ take 100 t
           | None \<Rightarrow> js ''Streaming error.'']
    \<and> (\<forall>t. errorText r = Some t \<longrightarrow>
          notices (run cfg parse (processStreamingQuery cfg e lineNum lineText)
                     (pre @ FetchResolved r # post))
            = [js ''Ghost Error: '' @ numToString (status r) @ js '' - '' @ take 100 t]
          \<and> occursIn (numToString (status r))
               (js ''Ghost Error: '' @ numToString (status r) @ js '' - '' @ take 100 t))
    \<and> phase (run cfg parse (processStreamingQuery cfg e lineNum lineText)
               (pre @ FetchResolved r # post)) = Returned
    \<and> ed (run cfg parse (processStreamingQuery cfg e lineNum lineText)
            (pre @ FetchResolved r # post))
        = ed (run cfg parse (processStreamingQuery cfg e lineNum lineText) pre)
    \<and> showsSpinner cfg (run cfg parse (processStreamingQuery cfg e lineNum lineText)
                          (pre @ FetchResolved r # post))"
proof -
  let ?s0 = "processStreamingQuery cfg e lineNum lineText"
  let ?s1 = "run cfg parse ?s0 pre"
  let ?s2 = "onResponse ?s1 r"
  have ph: "phase ?s0 = AwaitingResponse"
    using assms(4,5) by (simp add: psq_phase)
  have sp0: "showsSpinner cfg ?s0"
    by (rule psq_showsSpinner[OF ph assms(1,2,3)])
  note t = run_ticks[OF assms(6) sp0, of parse]
  have ph1: "phase ?s1 = AwaitingResponse" and li: "loadingInterval ?s1"
    and no: "notices ?s1 = []"
    using t ph psq_fields[OF ph] by simp_all
  note o = onResponse_error[OF assms(7) li]
  have r2: "phase ?s2 = Returned" "\<not> timerRunning ?s2"
    using o by simp_all
  have "run cfg parse ?s0 (pre @ FetchResolved r # post) = run cfg parse ?s2 post"
    using ph1 by (simp add: run_append run_Cons)
  also have "\<dots> = ?s2"
    by (rule run_returned[OF r2])
  finally have e: "run cfg parse ?s0 (pre @ FetchResolved r # post) = ?s2" .
  have n: "notices ?s2
        = [case errorText r of
             Some t \<Rightarrow> js ''Ghost Error: '' @ numToString (status r) @ js '' - '' @ take 100 t
           | None \<Rightarrow> js ''Streaming error.'']"
    using o(2) no by simp
  have oc: "occursIn (numToString (status r))
               (js ''Ghost Error: '' @ numToString (status r) @ js '' - '' @ take 100 t)" for t
    using occursIn_mid[of "numToString (status r)" "js ''Ghost Error: ''" "js '' - '' @ take 100 t"]
    by simp
  have sp: "showsSpinner cfg ?s2"
    using onResponse_error_spinner[OF assms(7), of cfg ?s1] t by simp
  show ?thesis
    unfolding e using n oc o(1,3,4) sp by simp
qed

theorem http_error_leaves_placeholder_witness:
  "wf_doc exEditor \<and> 1 < lineCount exEditor \<and> js ''@m hi;;'' = getLine exEditor 1
   \<and> findModel exEditor 1 \<noteq> None \<and> apiKey exSettings \<noteq> []
   \<and> list_all (\<lambda>ev. ev = Tick) [Tick, Tick] \<and> \<not> ok (exResponse False 401)
   \<and> errorText (exResponse False 401) = Some (js ''denied'')
   \<and> \<not> timerRunning
         (run exSettings exParse (processStreamingQuery exSettings exEditor 1 (js ''@m hi;;''))
            ([Tick, Tick] @ FetchResolved (exResponse False 401)
             # [Chunk (js ''data: Hello'' @ [nl]), Done, Tick]))
   \<and> notices
         (run exSettings exParse (processStreamingQuery exSettings exEditor 1 (js ''@m hi;;''))
            ([Tick, Tick] @ FetchResolved (exResponse False 401)
             # [Chunk (js ''data: Hello'' @ [nl]), Done, Tick]))
       = [js ''Ghost Error: 401 - denied'']
   \<and> occursIn (js ''401'') (js ''Ghost Error: 401 - denied'')
   \<and> showsSpinner exSettings
         (run exSettings exParse (processStreamingQuery exSettings exEditor 1 (js ''@m hi;;''))
            ([Tick, Tick] @ FetchResolved (exResponse False 401)
             # [Chunk (js ''data: Hello'' @ [nl]), Done, Tick]))"
proof -
  have k: "apiKey exSettings \<noteq> []"
    by (simp add: exSettings_def js_def)
  have f: "findModel exEditor 1 \<noteq> None"
    unfolding ex_findModel by simp
  have t: "list_all (\<lambda>ev. ev = Tick) [Tick, Tick]"
    by simp
  have r: "\<not> ok (exResponse False 401)"
    by (simp add: exResponse_def)
  have b: "errorText (exResponse False 401) = Some (js ''denied'')"
    by (simp add: exResponse_def)
  have n: "js ''Ghost Error: '' @ numToString (status (exResponse False 401)) @ js '' - ''
             @ take 100 (js ''denied'') = js ''Ghost Error: 401 - denied''"
    "numToString (status (exResponse False 401)) = js ''401''"
    by (simp_all add: exResponse_def js_def)
  note H = http_error_leaves_placeholder[OF ex_wf ex_line f k t r, of exParse
        "[Chunk (js ''data: Hello'' @ [nl]), Done, Tick]"]
  note H3 = H[THEN conjunct2, THEN conjunct2, THEN conjunct1, THEN spec, THEN mp, OF b,
              unfolded n(1), unfolded n(2)]
  show ?thesis
    by (intro conjI)
       (fact ex_wf ex_line f k t r b H[THEN conjunct1] H3[THEN conjunct1] H3[THEN conjunct2]
             H[THEN conjunct2, THEN conjunct2, THEN conjunct2, THEN conjunct2, THEN conjunct2])+
qed

text \<open>
  A response with status 401 whose body cannot be read: the one notice shown is
  \<^verbatim>\<open>Streaming error.\<close>, and the status code does not occur in it.
\<close>

theorem http_error_unread_body:
  "\<not> ok exUnread \<and> status exUnread = 401
   \<and> notices (run exSettings exParse exStart [Tick, FetchResolved exUnread])
       = [js ''Streaming error.'']
   \<and> \<not> occursIn (numToString (status exUnread)) (js ''Streaming error.'')"
  by code_simp

section \<open>Citations\<close>




lemma sourcesText_concat:
  "sourcesText m = [nl, nl] @ js ''**Sources:**'' @ [nl] @ concat (map sourceEntry m)"
proof -
  have "foldl (\<lambda>text ut. text @ sourceEntry ut) h m = h @ concat (map sourceEntry m)" for h
    by (induction m arbitrary: h) simp_all
  then show ?thesis
    by (simp add: sourcesText_def)
qed



section \<open>The placeholder animator\<close>

lemma insertContent_first_timer:
  "isFirstChunk s \<Longrightarrow> timerRunning s \<longrightarrow> loadingInterval s \<Longrightarrow>
   \<not> timerRunning (insertContent cfg s c)"
  by (auto simp: insertContent_def Let_def)

text \<open>
  Claim C4. One run of the interval callback, in any state. When the generation line
  exists and its content (without its first two characters under callout style) begins
  with a spinner frame, the whole line is replaced by the marker and the next frame.
  When the line exists and its content does not begin with a frame, the editor is left
  as it is. When the line does not exist, the editor is left as it is and the interval
  is cleared. A text begins with a frame exactly when it is not empty and its first code
  unit is one of the ten frames. A line that does not look like the spinner is thus
  never overwritten, whoever wrote it (a line that begins with a frame is replaced
  whole, whatever follows the frame); and streamed content is never overwritten because
  the first content delta clears the interval: after it, a tick is no step at all.
\<close>

theorem animator_guard:
  "(generationLine s < lineCount (ed s)
      \<and> looksLikeSpinner (if responseStyle cfg = Callout
                           then drop 2 (getLine (ed s) (generationLine s))
                           else getLine (ed s) (generationLine s))
    \<longrightarrow> ed (tick cfg s)
          = replaceRange (ed s)
              (spinnerPrefix s
               @ getSpinnerText ((currentFrameIndex s + 1) mod length spinnerFrames))
              (pos (generationLine s) 0)
              (pos (generationLine s) (length (getLine (ed s) (generationLine s))))
        \<and> (nl \<notin> set (spinnerPrefix s) \<longrightarrow>
             doc (ed (tick cfg s))
             = (doc (ed s))[generationLine s :=
                  spinnerPrefix s
                  @ getSpinnerText ((currentFrameIndex s + 1) mod length spinnerFrames)])
        \<and> timerRunning (tick cfg s) = timerRunning s)
   \<and> (generationLine s < lineCount (ed s)
      \<and> \<not> looksLikeSpinner (if responseStyle cfg = Callout
                             then drop 2 (getLine (ed s) (generationLine s))
                             else getLine (ed s) (generationLine s))
    \<longrightarrow> ed (tick cfg s) = ed s \<and> timerRunning (tick cfg s) = timerRunning s)
   \<and> (\<not> generationLine s < lineCount (ed s)
    \<longrightarrow> ed (tick cfg s) = ed s \<and> (loadingInterval s \<longrightarrow> \<not> timerRunning (tick cfg s)))
   \<and> (looksLikeSpinner x \<longleftrightarrow> x \<noteq> [] \<and> hd x \<in> set spinnerFrames)
   \<and> (isFirstChunk s \<and> (timerRunning s \<longrightarrow> loadingInterval s)
    \<longrightarrow> step cfg parse (insertContent cfg s c) Tick = insertContent cfg s c)"
proof -
  let ?g = "generationLine s"
  let ?new = "spinnerPrefix s @ getSpinnerText ((currentFrameIndex s + 1) mod length spinnerFrames)"
  have nn: "nl \<notin> set (getSpinnerText ((currentFrameIndex s + 1) mod length spinnerFrames))"
    by (rule spinner_no_nl) (simp add: spinnerFrames_def)
  have a: "doc (replaceRange (ed s) ?new (pos ?g 0) (pos ?g (length (getLine (ed s) ?g))))
             = (doc (ed s))[?g := ?new]"
    if "?g < lineCount (ed s)" "nl \<notin> set (spinnerPrefix s)"
    using doc_replace_whole_line[OF that(1), of ?new] that(2) nn by simp
  have b: "step cfg parse (insertContent cfg s c) Tick = insertContent cfg s c"
    if "isFirstChunk s" "timerRunning s \<longrightarrow> loadingInterval s"
    using insertContent_first_timer[OF that, of cfg c] by simp
  show ?thesis
    using a b looksLikeSpinner_iff[of x]
    by (auto simp: tick_def Let_def)
qed

theorem animator_guard_witness:
  "(generationLine exStart < lineCount (ed exStart)
    \<and> looksLikeSpinner (if responseStyle exSettings = Callout
                         then drop 2 (getLine (ed exStart) (generationLine exStart))
                         else getLine (ed exStart) (generationLine exStart)))
   \<and> nl \<notin> set (spinnerPrefix exStart)
   \<and> doc (ed (tick exSettings exStart))
       = (doc (ed exStart))[generationLine exStart :=
            spinnerPrefix exStart
            @ getSpinnerText ((currentFrameIndex exStart + 1) mod length spinnerFrames)]
   \<and> (generationLine (exStart\<lparr>ed := \<lparr>doc = [js ''a'', js ''b'', js ''c'', js ''my text''],
                                       cursor = pos 0 0\<rparr>\<rparr>)
        < lineCount (ed (exStart\<lparr>ed := \<lparr>doc = [js ''a'', js ''b'', js ''c'', js ''my text''],
                                        cursor = pos 0 0\<rparr>\<rparr>)))
   \<and> ed (tick exSettings (exStart\<lparr>ed := \<lparr>doc = [js ''a'', js ''b'', js ''c'', js ''my text''],
                                          cursor = pos 0 0\<rparr>\<rparr>))
       = ed (exStart\<lparr>ed := \<lparr>doc = [js ''a'', js ''b'', js ''c'', js ''my text''],
                              cursor = pos 0 0\<rparr>\<rparr>)
   \<and> \<not> generationLine (exStart\<lparr>ed := \<lparr>doc = [js ''a''], cursor = pos 0 0\<rparr>\<rparr>)
         < lineCount (ed (exStart\<lparr>ed := \<lparr>doc = [js ''a''], cursor = pos 0 0\<rparr>\<rparr>))
   \<and> \<not> timerRunning (tick exSettings (exStart\<lparr>ed := \<lparr>doc = [js ''a''], cursor = pos 0 0\<rparr>\<rparr>))
   \<and> isFirstChunk exStart \<and> loadingInterval exStart
   \<and> step exSettings exParse (insertContent exSettings exStart (js ''Hel'')) Tick
       = insertContent exSettings exStart (js ''Hel'')"
proof -
  let ?u = "exStart\<lparr>ed := \<lparr>doc = [js ''a'', js ''b'', js ''c'', js ''my text''], cursor = pos 0 0\<rparr>\<rparr>"
  let ?v = "exStart\<lparr>ed := \<lparr>doc = [js ''a''], cursor = pos 0 0\<rparr>\<rparr>"
  have g: "nl \<notin> set (spinnerPrefix exStart)" "isFirstChunk exStart" "loadingInterval exStart"
    by code_simp+
  have a: "generationLine exStart < lineCount (ed exStart)
    \<and> looksLikeSpinner (if responseStyle exSettings = Callout
                         then drop 2 (getLine (ed exStart) (generationLine exStart))
                         else getLine (ed exStart) (generationLine exStart))"
    by code_simp
  have u: "generationLine ?u < lineCount (ed ?u)
    \<and> \<not> looksLikeSpinner (if responseStyle exSettings = Callout
                           then drop 2 (getLine (ed ?u) (generationLine ?u))
                           else getLine (ed ?u) (generationLine ?u))"
    by code_simp
  have v: "\<not> generationLine ?v < lineCount (ed ?v)" "loadingInterval ?v"
    by code_simp+
  have w: "timerRunning exStart \<longrightarrow> loadingInterval exStart"
    using g(3) by simp
  note A = animator_guard[of exStart exSettings "[]" exParse "js ''Hel''"]
  note A1 = A[THEN conjunct1, THEN mp, OF a, THEN conjunct2, THEN conjunct1, THEN mp, OF g(1)]
  note A5 = A[THEN conjunct2, THEN conjunct2, THEN conjunct2, THEN conjunct2, THEN mp,
              OF conjI[OF g(2) w]]
  note U = animator_guard[of ?u exSettings "[]" exParse "js ''Hel''",
              THEN conjunct2, THEN conjunct1, THEN mp, OF u, THEN conjunct1]
  note V = animator_guard[of ?v exSettings "[]" exParse "js ''Hel''",
              THEN conjunct2, THEN conjunct2, THEN conjunct1, THEN mp, OF v(1),
              THEN conjunct2, THEN mp, OF v(2)]
  show ?thesis
    by (intro conjI) (fact a[THEN conjunct1] a[THEN conjunct2] g A1 A5 U V v(1)
                           u[THEN conjunct1])+
qed

text \<open>
  A line that the user has edited but that still begins with a frame is overwritten:
  with the words \<^verbatim>\<open> my own notes\<close> typed behind the placeholder, the next tick
  replaces the whole line by the next frame, and the words are gone.
\<close>

theorem animator_overwrites_edited_placeholder:
  "timerRunning exEdited
   \<and> getLine (ed exEdited) (generationLine exEdited) = getSpinnerText 0 @ js '' my own notes''
   \<and> getLine (ed (step exSettings exParse exEdited Tick)) (generationLine exEdited)
       = getSpinnerText 1"
  by code_simp

section \<open>Response styles\<close>

lemma quoted_replace_nl: "quoted (replace_nl c)"
  by (induction c) (simp_all add: js_def nl_def)

lemma quoted_first: "quoted (js ''> '' @ replace_nl c)"
  using quoted_replace_nl[of c] by (simp add: js_def nl_def)

lemma replace_nl_plain: "nl \<notin> set c \<Longrightarrow> replace_nl c = c"
  by (induction c) auto

lemma split_replace_nl:
  "split_nl (replace_nl c) = hd (split_nl c) # map (\<lambda>l. js ''> '' @ l) (tl (split_nl c))"
proof (induction c)
  case Nil
  then show ?case by simp
next
  case (Cons x c)
  show ?case
  proof (cases "x = nl")
    case True
    have "split_nl (js ''> '' @ replace_nl c)
            = (js ''> '' @ hd (split_nl (replace_nl c))) # tl (split_nl (replace_nl c))"
      by (rule split_nl_plain_append) (simp add: js_def nl_def)
    then show ?thesis
      using True Cons by (cases "split_nl c") simp_all
  next
    case False
    then show ?thesis
      using Cons by (cases "split_nl c") (simp_all split: list.splits)
  qed
qed

lemma separator_not_quoted: "\<not> quoted ([nl, nl] @ t)"
  by (simp add: js_def nl_def)

lemma quoted_fallback: "quoted (nl # js ''> '' @ replace_nl c)"
  using quoted_first[of c] by (simp add: js_def)

text \<open>
  Claim C7. Under callout style the text derived from a delta has the marker \<^verbatim>\<open>> \<close>
  behind each of its newlines (its lines are the delta's lines, all but the first with
  the marker in front), and the text that replaces the placeholder line is that text
  with one more marker in front. Under plain and horizontal-rule style the text is the
  delta itself and nothing is put in front. These are the texts written to the buffer
  while the generation line exists: a later delta is inserted at the tracked position,
  the first delta replaces the whole generation line. When the generation line no
  longer exists, the first delta is appended at the end of the buffer behind a
  separator of two newlines, and under callout style behind a third newline and one
  marker: what follows the separator is marked after every newline, the text with the
  separator is not, and under no style is it the delta itself.
\<close>

theorem style_transformation:
  "(responseStyle cfg = Callout \<longrightarrow>
      quoted (displayContent cfg c)
      \<and> quoted (firstPrefix cfg @ displayContent cfg c)
      \<and> firstPrefix cfg = js ''> ''
      \<and> split_nl (displayContent cfg c)
          = hd (split_nl c) # map (\<lambda>l. js ''> '' @ l) (tl (split_nl c)))
   \<and> (responseStyle cfg \<noteq> Callout \<longrightarrow> displayContent cfg c = c \<and> firstPrefix cfg = [])
   \<and> (\<not> isFirstChunk s \<longrightarrow>
        ed (insertContent cfg s c)
        = insertAt (ed s) (displayContent cfg c) (currentInsertPos s))
   \<and> (isFirstChunk s \<and> generationLine s < lineCount (ed s) \<longrightarrow>
        ed (insertContent cfg s c)
        = replaceRange (ed s) (firstPrefix cfg @ displayContent cfg c)
            (pos (generationLine s) 0)
            (pos (generationLine s) (length (getLine (ed s) (generationLine s)))))
   \<and> (isFirstChunk s \<and> \<not> generationLine s < lineCount (ed s) \<longrightarrow>
        ed (insertContent cfg s c)
        = insertAt (ed s)
            ([nl, nl] @ (if responseStyle cfg = Callout then nl # js ''> '' @ displayContent cfg c
                         else displayContent cfg c))
            (pos (lineCount (ed s) - 1) (length (getLine (ed s) (lineCount (ed s) - 1)))))
   \<and> quoted (nl # js ''> '' @ replace_nl c)
   \<and> \<not> quoted ([nl, nl] @ t)"
  using quoted_replace_nl[of c] quoted_first[of c] split_replace_nl[of c]
    quoted_fallback[of c] separator_not_quoted[of t]
  by (auto simp: displayContent_def firstPrefix_def insertContent_def Let_def)

theorem style_transformation_witness:
  "responseStyle exCallout = Callout
   \<and> displayContent exCallout (js ''a'' @ nl # js ''b'') = js ''a'' @ nl # js ''> b''
   \<and> quoted (displayContent exCallout (js ''a'' @ nl # js ''b''))
   \<and> responseStyle exSettings \<noteq> Callout
   \<and> displayContent exSettings (js ''a'' @ nl # js ''b'') = js ''a'' @ nl # js ''b''
   \<and> (isFirstChunk exStart \<and> generationLine exStart < lineCount (ed exStart))
   \<and> ed (insertContent exCallout exStart (js ''a'' @ nl # js ''b''))
       = replaceRange (ed exStart)
           (firstPrefix exCallout @ displayContent exCallout (js ''a'' @ nl # js ''b''))
           (pos (generationLine exStart) 0)
           (pos (generationLine exStart) (length (getLine (ed exStart) (generationLine exStart))))
   \<and> \<not> isFirstChunk (insertContent exSettings exStart (js ''x''))
   \<and> ed (insertContent exSettings (insertContent exSettings exStart (js ''x''))
            (js ''a'' @ nl # js ''b''))
       = insertAt (ed (insertContent exSettings exStart (js ''x'')))
           (displayContent exSettings (js ''a'' @ nl # js ''b''))
           (currentInsertPos (insertContent exSettings exStart (js ''x'')))
   \<and> (isFirstChunk exCut \<and> \<not> generationLine exCut < lineCount (ed exCut))
   \<and> ed (insertContent exSettings exCut (js ''a'' @ nl # js ''b''))
       = insertAt (ed exCut)
           ([nl, nl] @ (if responseStyle exSettings = Callout
                        then nl # js ''> '' @ displayContent exSettings (js ''a'' @ nl # js ''b'')
                        else displayContent exSettings (js ''a'' @ nl # js ''b'')))
           (pos (lineCount (ed exCut) - 1) (length (getLine (ed exCut) (lineCount (ed exCut) - 1))))"
proof -
  let ?d = "js ''a'' @ nl # js ''b''"
  let ?x = "insertContent exSettings exStart (js ''x'')"
  have c: "responseStyle exCallout = Callout" and p: "responseStyle exSettings \<noteq> Callout"
    by (simp_all add: exCallout_def exSettings_def)
  have d: "displayContent exCallout ?d = js ''a'' @ nl # js ''> b''"
    by code_simp
  have f: "isFirstChunk exStart \<and> generationLine exStart < lineCount (ed exStart)"
    by code_simp
  have x: "\<not> isFirstChunk ?x"
    by code_simp
  have u: "isFirstChunk exCut \<and> \<not> generationLine exCut < lineCount (ed exCut)"
    by code_simp
  note C = style_transformation[of exCallout ?d exStart "[]"]
  note P = style_transformation[of exSettings ?d ?x "[]"]
  note U = style_transformation[of exSettings ?d exCut "[]"]
  note C1 = C[THEN conjunct1, THEN mp, OF c, THEN conjunct1]
  note C4 = C[THEN conjunct2, THEN conjunct2, THEN conjunct2, THEN conjunct1, THEN mp, OF f]
  note P2 = P[THEN conjunct2, THEN conjunct1, THEN mp, OF p, THEN conjunct1]
  note P3 = P[THEN conjunct2, THEN conjunct2, THEN conjunct1, THEN mp, OF x]
  note U5 = U[THEN conjunct2, THEN conjunct2, THEN conjunct2, THEN conjunct2, THEN conjunct1,
              THEN mp, OF u]
  show ?thesis
    by (intro conjI)
       (fact c p d f[THEN conjunct1] f[THEN conjunct2] x u[THEN conjunct1] u[THEN conjunct2]
             C1 C4 P2 P3 U5)+
qed

text \<open>
  The buffer cut down to the one line \<^verbatim>\<open>a\<close> while the first delta \<^verbatim>\<open>x\ny\<close> is
  awaited. Under callout style the text written is \<^verbatim>\<open>\n\n\n> x\n> y\<close>: its first two
  newlines have no marker behind them, and the buffer gets two empty lines. Under plain
  style the text written is \<^verbatim>\<open>\n\nx\ny\<close>, not the delta unchanged.
\<close>

theorem fallback_separator_unmarked:
  "isFirstChunk exCutCallout
   \<and> \<not> generationLine exCutCallout < lineCount (ed exCutCallout)
   \<and> ed (insertContent exCallout exCutCallout (js ''x'' @ nl # js ''y''))
       = insertAt (ed exCutCallout) ([nl, nl, nl] @ js ''> x'' @ nl # js ''> y'') (pos 0 1)
   \<and> doc (ed (insertContent exCallout exCutCallout (js ''x'' @ nl # js ''y'')))
       = [js ''a'', [], [], js ''> x'', js ''> y'']
   \<and> \<not> quoted ([nl, nl, nl] @ js ''> x'' @ nl # js ''> y'')
   \<and> ed (insertContent exSettings exCut (js ''x'' @ nl # js ''y''))
       = insertAt (ed exCut) ([nl, nl] @ js ''x'' @ nl # js ''y'') (pos 0 1)
   \<and> [nl, nl] @ js ''x'' @ nl # js ''y'' \<noteq> js ''x'' @ nl # js ''y''"
  by code_simp

section \<open>The reference parser\<close>

lemma model_char_not_at: "is_model_char c \<Longrightarrow> c \<noteq> at_sign"
  by (auto simp: is_model_char_def at_sign_def)

lemma ref_skip:
  "\<forall>c\<in>set a. c \<noteq> at_sign \<Longrightarrow> refMatchesFrom i (a @ b) = refMatchesFrom (i + length a) b"
  by (induction a arbitrary: i) simp_all

lemma matchAllFrom_ref: "matchAllFrom i s = refMatchesFrom i s"
proof (induction i s rule: matchAllFrom.induct)
  case (1 i)
  then show ?case by simp
next
  case (2 i c cs)
  let ?tw = "takeWhile is_model_char cs"
  let ?dw = "dropWhile is_model_char cs"
  show ?case
  proof (cases "c = at_sign \<and> ?tw \<noteq> []")
    case True
    have na: "\<forall>x\<in>set ?tw. x \<noteq> at_sign"
      by (auto dest: set_takeWhileD model_char_not_at)
    have "refMatchesFrom (Suc i) cs = refMatchesFrom (Suc i) (?tw @ ?dw)"
      by simp
    also have "\<dots> = refMatchesFrom (Suc i + length ?tw) ?dw"
      by (rule ref_skip[OF na])
    finally have sk: "refMatchesFrom (Suc i) cs = refMatchesFrom (i + 1 + length ?tw) ?dw"
      by simp
    have hd: "cs \<noteq> [] \<and> is_model_char (hd cs)"
      using True by (auto simp: takeWhile_eq_Nil_iff)
    show ?thesis
      using True 2(1) sk hd by simp
  next
    case False
    then have "\<not> (c = at_sign \<and> cs \<noteq> [] \<and> is_model_char (hd cs))"
      by (auto simp: takeWhile_eq_Nil_iff)
    then show ?thesis
      using False 2(2) by auto
  qed
qed

lemma matchAll_ref: "matchAll s = refMatches s"
  by (simp add: matchAll_def refMatches_def matchAllFrom_ref)

lemma ref_set:
  "(j, t) \<in> set (refMatchesFrom i s) \<longleftrightarrow>
     (\<exists>k. j = i + k \<and> k < length s \<and> s ! k = at_sign
          \<and> t = takeWhile is_model_char (drop (Suc k) s) \<and> t \<noteq> [])"
proof (induction s arbitrary: i)
  case Nil
  then show ?case by simp
next
  case (Cons c cs)
  have here: "(c = at_sign \<and> cs \<noteq> [] \<and> is_model_char (hd cs))
                \<longleftrightarrow> (c = at_sign \<and> takeWhile is_model_char cs \<noteq> [])"
    by (auto simp: takeWhile_eq_Nil_iff)
  have "(\<exists>k. j = i + k \<and> k < length (c # cs) \<and> (c # cs) ! k = at_sign
          \<and> t = takeWhile is_model_char (drop (Suc k) (c # cs)) \<and> t \<noteq> [])
        \<longleftrightarrow> (j = i \<and> c = at_sign \<and> t = takeWhile is_model_char cs \<and> t \<noteq> [])
            \<or> (\<exists>k. j = Suc i + k \<and> k < length cs \<and> cs ! k = at_sign
                  \<and> t = takeWhile is_model_char (drop (Suc k) cs) \<and> t \<noteq> [])"
    (is "?L \<longleftrightarrow> ?A \<or> ?B")
  proof
    assume ?L
    then obtain k where k: "j = i + k" "k < length (c # cs)" "(c # cs) ! k = at_sign"
      "t = takeWhile is_model_char (drop (Suc k) (c # cs))" "t \<noteq> []"
      by blast
    show "?A \<or> ?B"
    proof (cases k)
      case 0
      then show ?thesis using k by simp
    next
      case (Suc k')
      then have ?B using k by (intro exI[of _ k']) simp
      then show ?thesis ..
    qed
  next
    assume "?A \<or> ?B"
    then show ?L
    proof
      assume ?A
      then show ?L by (intro exI[of _ 0]) auto
    next
      assume ?B
      then obtain k where "j = Suc i + k" "k < length cs" "cs ! k = at_sign"
        "t = takeWhile is_model_char (drop (Suc k) cs)" "t \<noteq> []"
        by blast
      then show ?L by (intro exI[of _ "Suc k"]) simp
    qed
  qed
  then show ?case
    using Cons[of "Suc i"] here by auto
qed

lemma ref_lower: "(j, t) \<in> set (refMatchesFrom i s) \<Longrightarrow> i \<le> j"
  by (auto simp: ref_set)

lemma ref_sorted: "sorted_wrt (<) (map fst (refMatchesFrom i s))"
proof (induction s arbitrary: i)
  case Nil
  then show ?case by simp
next
  case (Cons c cs)
  have "\<forall>x\<in>set (refMatchesFrom (Suc i) cs). i < fst x"
    using ref_lower[of _ _ "Suc i" cs] by fastforce
  then show ?case
    using Cons[of "Suc i"] by (simp add: sorted_wrt_append)
qed

lemma sorted_last_max:
  "sorted_wrt (<) (map fst (ms :: (nat \<times> 'b) list)) \<Longrightarrow> x \<in> set ms \<Longrightarrow> fst x \<le> fst (last ms)"
proof (induction ms rule: rev_induct)
  case Nil
  then show ?case by simp
next
  case (snoc m ms)
  then show ?case
    by (cases "x = m") (auto simp: sorted_wrt_append less_imp_le)
qed

lemma matchAll_set:
  "(j, t) \<in> set (matchAll s) \<longleftrightarrow>
     j < length s \<and> s ! j = at_sign \<and> t = takeWhile is_model_char (drop (Suc j) s) \<and> t \<noteq> []"
  by (simp add: matchAll_ref refMatches_def ref_set)

lemma matchAll_last_max:
  "(j, t) \<in> set (matchAll s) \<Longrightarrow> j \<le> fst (last (matchAll s))"
  using sorted_last_max[OF ref_sorted[of 0 s], of "(j, t)"]
  by (simp add: matchAll_ref refMatches_def)

lemma matchAll_last_token: "matchAll s \<noteq> [] \<Longrightarrow> snd (last (matchAll s)) \<noteq> []"
proof -
  assume "matchAll s \<noteq> []"
  then have "last (matchAll s) \<in> set (matchAll s)"
    by simp
  then have "(fst (last (matchAll s)), snd (last (matchAll s))) \<in> set (matchAll s)"
    by simp
  then show ?thesis
    unfolding matchAll_set by blast
qed

lemma findModel_None:
  "findModel e n = None \<Longrightarrow> i \<le> n \<Longrightarrow> matchAll (getLine e i) = []"
proof (induction n)
  case 0
  then show ?case
    using matchAll_last_token[of "getLine e 0"] by (auto simp: Let_def split: if_splits)
next
  case (Suc n)
  then show ?case
    using matchAll_last_token[of "getLine e (Suc n)"]
    by (cases "i = Suc n") (auto simp: Let_def split: if_splits)
qed

lemma findModel_Some:
  "findModel e n = Some (m, jt) \<Longrightarrow>
     m \<le> n \<and> matchAll (getLine e m) \<noteq> [] \<and> jt = last (matchAll (getLine e m))
     \<and> (\<forall>i. m < i \<and> i \<le> n \<longrightarrow> matchAll (getLine e i) = [])"
proof (induction n)
  case 0
  then show ?case
    by (auto simp: Let_def split: if_splits)
next
  case (Suc n)
  show ?case
  proof (cases "matchAll (getLine e (Suc n)) = []")
    case True
    then have "findModel e n = Some (m, jt)"
      using Suc.prems by (simp add: Let_def)
    from Suc.IH[OF this] show ?thesis
      using True by (auto simp: le_Suc_eq)
  next
    case False
    then show ?thesis
      using Suc.prems matchAll_last_token[OF False] by (auto simp: Let_def)
  qed
qed

lemma psq_no_model:
  "findModel e n = None \<Longrightarrow>
   processStreamingQuery cfg e n t
     = returnedWith e [js ''Ghost: no model specified (e.g. @model-name).'']"
  by (simp add: processStreamingQuery_def)

text \<open>
  Claim C3. The matches that \<^verbatim>\<open>matchAll\<close> finds on a line are those of the spec: a pair
  \<open>(j, t)\<close> is a match exactly when the line has \<^verbatim>\<open>@\<close> at index \<open>j\<close> and \<open>t\<close>, not empty,
  is the run of class characters behind it. The backward loop from the invocation line
  \<open>lineNum\<close> down to line 0 returns nothing exactly when no line from 0 to \<open>lineNum\<close> has a
  match; the invocation then shows the no-model notice and returns with the editor
  untouched, and no later event touches it. When it returns line \<open>m\<close>, index \<open>j'\<close> and
  token \<open>t'\<close>, then \<open>m\<close> is at most \<open>lineNum\<close> (no token of a line after the invocation
  line is ever returned), the lines between \<open>m\<close> and \<open>lineNum\<close> have no match, and
  \<open>(j', t')\<close> is the last match of line \<open>m\<close>, the one with the greatest index. The
  invocation point is the line: the function is given a line number and no column, so
  on the invocation line itself the last match of the whole line is taken.
\<close>

theorem reference_parser:
  "matchAll ln = refMatches ln
   \<and> ((j, t) \<in> set (matchAll ln) \<longleftrightarrow>
        j < length ln \<and> ln ! j = at_sign
        \<and> t = takeWhile is_model_char (drop (Suc j) ln) \<and> t \<noteq> [])
   \<and> (findModel e lineNum = None \<longrightarrow>
        (\<forall>i\<le>lineNum. matchAll (getLine e i) = [])
        \<and> processStreamingQuery cfg e lineNum lineText
            = returnedWith e [js ''Ghost: no model specified (e.g. @model-name).'']
        \<and> (\<forall>evs. ed (run cfg parse (processStreamingQuery cfg e lineNum lineText) evs) = e))
   \<and> (\<forall>m j' t'. findModel e lineNum = Some (m, j', t') \<longrightarrow>
        m \<le> lineNum
        \<and> (j', t') = last (matchAll (getLine e m))
        \<and> (j', t') \<in> set (matchAll (getLine e m))
        \<and> (\<forall>ja ta. (ja, ta) \<in> set (matchAll (getLine e m)) \<longrightarrow> ja \<le> j')
        \<and> (\<forall>i. m < i \<and> i \<le> lineNum \<longrightarrow> matchAll (getLine e i) = []))
   \<and> ((\<exists>i\<le>lineNum. matchAll (getLine e i) \<noteq> []) \<longrightarrow> findModel e lineNum \<noteq> None)"
proof -
  have none: "(\<forall>i\<le>lineNum. matchAll (getLine e i) = [])
        \<and> processStreamingQuery cfg e lineNum lineText
            = returnedWith e [js ''Ghost: no model specified (e.g. @model-name).'']
        \<and> (\<forall>evs. ed (run cfg parse (processStreamingQuery cfg e lineNum lineText) evs) = e)"
    if "findModel e lineNum = None"
    using findModel_None[OF that] psq_no_model[OF that]
    by (simp add: run_returned returnedWith_simps)
  have some: "m \<le> lineNum
        \<and> (j', t') = last (matchAll (getLine e m))
        \<and> (j', t') \<in> set (matchAll (getLine e m))
        \<and> (\<forall>ja ta. (ja, ta) \<in> set (matchAll (getLine e m)) \<longrightarrow> ja \<le> j')
        \<and> (\<forall>i. m < i \<and> i \<le> lineNum \<longrightarrow> matchAll (getLine e i) = [])"
    if f: "findModel e lineNum = Some (m, j', t')" for m j' t'
  proof -
    note s = findModel_Some[OF f]
    have l: "(j', t') = last (matchAll (getLine e m))" and ne: "matchAll (getLine e m) \<noteq> []"
      using s by simp_all
    have mem: "(j', t') \<in> set (matchAll (getLine e m))"
      unfolding l using ne by simp
    have "ja \<le> j'" if "(ja, ta) \<in> set (matchAll (getLine e m))" for ja ta
      using matchAll_last_max[OF that] l[symmetric] by simp
    then show ?thesis
      using s mem by blast
  qed
  have ex: "findModel e lineNum \<noteq> None" if "\<exists>i\<le>lineNum. matchAll (getLine e i) \<noteq> []"
    using that findModel_None[of e lineNum] by blast
  show ?thesis
    using matchAll_ref[of ln] matchAll_set[of j t ln] none some ex by blast
qed

theorem reference_parser_witness:
  "findModel exRefs 2 = Some (2, 9, js ''c/d-e.f'')
   \<and> (2::nat) \<le> 2
   \<and> (9, js ''c/d-e.f'') = last (matchAll (getLine exRefs 2))
   \<and> matchAll (getLine exRefs 2) = [(2, js ''b''), (9, js ''c/d-e.f'')]
   \<and> findModel exRefs 1 = Some (0, 0, js ''first'')
   \<and> findModel exNoRefs 1 = None
   \<and> matchAll (getLine exNoRefs 0) = [] \<and> matchAll (getLine exNoRefs 1) = []
   \<and> processStreamingQuery exSettings exNoRefs 1 (js ''here;;'')
       = returnedWith exNoRefs [js ''Ghost: no model specified (e.g. @model-name).'']"
proof -
  have a: "findModel exRefs 2 = Some (2, 9, js ''c/d-e.f'')"
    by code_simp
  have b: "findModel exNoRefs 1 = None"
    by code_simp
  have c: "matchAll (getLine exRefs 2) = [(2, js ''b''), (9, js ''c/d-e.f'')]"
    "findModel exRefs 1 = Some (0, 0, js ''first'')"
    by code_simp+
  note R = reference_parser[of "[]" 0 "[]" exRefs 2 exSettings "js ''x''" exParse]
  note N = reference_parser[of "[]" 0 "[]" exNoRefs 1 exSettings "js ''here;;''" exParse]
  note R4 = R[THEN conjunct2, THEN conjunct2, THEN conjunct2, THEN conjunct1,
              THEN spec, THEN spec, THEN spec, THEN mp, OF a]
  note N3 = N[THEN conjunct2, THEN conjunct2, THEN conjunct1, THEN mp, OF b]
  have z: "matchAll (getLine exNoRefs 0) = []" "matchAll (getLine exNoRefs 1) = []"
    using N3[THEN conjunct1] by simp_all
  show ?thesis
    by (intro conjI)
       (fact a b c z R4[THEN conjunct1] R4[THEN conjunct2, THEN conjunct1]
             N3[THEN conjunct2, THEN conjunct1])+
qed

text \<open>
  On the invocation line a token behind the cursor can be returned. In the buffer with
  the one line \<^verbatim>\<open>ask @a now @b\<close> and the cursor at column 6, between the two
  references, the loop started on the cursor's line returns \<^verbatim>\<open>@b\<close> at index 11, and
  the request of the command \<^verbatim>\<open>trigger-ghost\<close> names the model \<^verbatim>\<open>b\<close>.
\<close>

theorem reference_behind_cursor:
  "cursor exMid = pos 0 6
   \<and> findModel exMid (line (cursor exMid)) = Some (0, 11, js ''b'')
   \<and> ch (cursor exMid) < 11
   \<and> map_option targetModel (request (triggerGhost exSettings exMid)) = Some (js ''b'')"
  by code_simp

section \<open>The tracked position\<close>

lemma wf_doc_replaceRange: "wf_doc e \<Longrightarrow> wf_doc (replaceRange e t p q)"
  by (auto simp: wf_doc_def doc_replaceRange list_all_iff
           dest: in_set_takeD in_set_dropD split_nl_segments)

lemma wf_doc_insertAt: "wf_doc e \<Longrightarrow> wf_doc (insertAt e t p)"
  by (simp add: insertAt_def wf_doc_replaceRange)

lemma advancePos_line: "line (advancePos p t) = line p + count_list t nl"
  using length_split_nl[of t] by (auto simp: advancePos_def Let_def)

lemma advancePos_cases:
  "advancePos p t =
     (if nl \<in> set t then pos (line p + count_list t nl) (length (last (split_nl t)))
      else pos (line p) (ch p + length t))"
  using length_split_nl_gt1[of t] length_split_nl[of t]
  by (auto simp: advancePos_def Let_def)

text \<open>Replacing the range from \<open>p\<close> to \<open>q\<close>: the new text lies between \<open>p\<close> and the advanced position.\<close>

lemma replaceRange_written:
  assumes wf: "wf_doc e" and v: "validPos e p" and q: "line q < lineCount e"
    and pq: "line p \<le> line q"
  shows "getRange (replaceRange e t p q) p (advancePos p t) = t"
    and "validPos (replaceRange e t p q) (advancePos p t)"
    and "drop (ch (advancePos p t)) (getLine (replaceRange e t p q) (line (advancePos p t)))
           = drop (ch q) (getLine e (line q))"
proof -
  let ?L = "getLine e (line p)"
  let ?pre = "take (ch p) ?L"
  let ?post = "drop (ch q) (getLine e (line q))"
  let ?S = "split_nl (?pre @ t @ ?post)"
  let ?e' = "replaceRange e t p q"
  have lp: "line p < lineCount e" and cp: "ch p \<le> length ?L"
    using v by (simp_all add: validPos_def)
  have npre: "nl \<notin> set ?pre"
    using wf_doc_line[OF wf lp] by (auto dest: in_set_takeD)
  have npost: "nl \<notin> set ?post"
    using wf_doc_line[OF wf q] by (auto dest: in_set_dropD)
  have lenpre: "length ?pre = ch p"
    using cp by simp
  have a: "advancePos p t = pos (line p + length (split_nl t) - 1) (length (last (split_nl (?pre @ t))))"
    using last_split_prefixed[OF npre, of t] lenpre length_split_nl[of t]
    by (auto simp: advancePos_def Let_def)
  have lenS: "length ?S = length (split_nl t)"
    by (rule length_split_glued[OF npre npost])
  have S: "?S = butlast (split_nl (?pre @ t)) @ [last (split_nl (?pre @ t)) @ ?post]"
    using split_nl_append_plain[OF npost, of "?pre @ t"] by simp
  have lt: "length (take (line p) (doc e)) = line p"
    using lp by (simp add: lineCount_def)
  have d: "drop (line p) (doc ?e') = ?S @ drop (Suc (line q)) (doc e)"
    using lt by (simp add: doc_replaceRange)
  have "Suc (line (advancePos p t)) - line p = length ?S"
    using a lenS by (simp add: Suc_diff_le)
  then have ls: "take (Suc (line (advancePos p t)) - line p) (drop (line p) (doc ?e')) = ?S"
    using d by simp
  have "butlast ?S @ [take (ch (advancePos p t)) (last ?S)] = split_nl (?pre @ t)"
    using a by (subst (1 2) S) simp
  then have "getRange ?e' p (advancePos p t) = drop (ch p) (join_nl (split_nl (?pre @ t)))"
    unfolding getRange_def ls Let_def by simp
  then show "getRange ?e' p (advancePos p t) = t"
    using lenpre by simp
  have idx: "line (advancePos p t) = line p + (length ?S - 1)"
    using a lenS length_split_nl[of t] by simp
  have Sne: "?S \<noteq> []"
    by simp
  have "doc ?e' ! line (advancePos p t) = ?S ! (length ?S - 1)"
    unfolding idx doc_replaceRange using lt Sne
    by (simp add: nth_append)
  also have "\<dots> = last (split_nl (?pre @ t)) @ ?post"
    using Sne by (subst last_conv_nth[symmetric], simp) (subst S, simp)
  finally have ln: "doc ?e' ! line (advancePos p t) = last (split_nl (?pre @ t)) @ ?post" .
  have "0 < length ?S"
    using Sne by simp
  then have "line (advancePos p t) < length (doc ?e')"
    unfolding idx doc_replaceRange length_append lt
    by linarith
  then show "validPos ?e' (advancePos p t)"
    and "drop (ch (advancePos p t)) (getLine ?e' (line (advancePos p t))) = ?post"
    using ln a by (simp_all add: validPos_def lineCount_def getLine_def)
qed

lemma insertContent_later:
  assumes wf: "wf_doc (ed s)" and nf: "\<not> isFirstChunk s"
    and v: "validPos (ed s) (currentInsertPos s)"
  shows "currentInsertPos (insertContent cfg s c)
           = advancePos (currentInsertPos s) (displayContent cfg c)"
    and "getRange (ed (insertContent cfg s c)) (currentInsertPos s)
           (currentInsertPos (insertContent cfg s c)) = displayContent cfg c"
    and "validPos (ed (insertContent cfg s c)) (currentInsertPos (insertContent cfg s c))"
    and "wf_doc (ed (insertContent cfg s c))"
    and "\<not> isFirstChunk (insertContent cfg s c)"
proof -
  have l: "line (currentInsertPos s) < lineCount (ed s)"
    using v by (simp add: validPos_def)
  note w = replaceRange_written[OF wf v l order_refl, of "displayContent cfg c"]
  show "currentInsertPos (insertContent cfg s c)
           = advancePos (currentInsertPos s) (displayContent cfg c)"
    using nf by (simp add: insertContent_def)
  show "getRange (ed (insertContent cfg s c)) (currentInsertPos s)
           (currentInsertPos (insertContent cfg s c)) = displayContent cfg c"
    using nf w(1) by (simp add: insertContent_def insertAt_def)
  show "validPos (ed (insertContent cfg s c)) (currentInsertPos (insertContent cfg s c))"
    using nf w(2) by (simp add: insertContent_def insertAt_def)
  show "wf_doc (ed (insertContent cfg s c))"
    using nf wf by (simp add: insertContent_def wf_doc_insertAt)
  show "\<not> isFirstChunk (insertContent cfg s c)"
    using nf by (simp add: insertContent_def)
qed

lemma insertContent_first:
  assumes wf: "wf_doc (ed s)" and f: "isFirstChunk s"
    and g: "generationLine s < lineCount (ed s)"
  shows "currentInsertPos (insertContent cfg s c)
           = advancePos (pos (generationLine s) 0) (firstPrefix cfg @ displayContent cfg c)"
    and "getRange (ed (insertContent cfg s c)) (pos (generationLine s) 0)
           (currentInsertPos (insertContent cfg s c)) = firstPrefix cfg @ displayContent cfg c"
    and "validPos (ed (insertContent cfg s c)) (currentInsertPos (insertContent cfg s c))"
    and "wf_doc (ed (insertContent cfg s c))"
    and "\<not> isFirstChunk (insertContent cfg s c)"
proof -
  let ?g = "generationLine s"
  let ?d = "firstPrefix cfg @ displayContent cfg c"
  let ?q = "pos ?g (length (getLine (ed s) ?g))"
  have v: "validPos (ed s) (pos ?g 0)"
    using g by (simp add: validPos_def)
  have q: "line ?q < lineCount (ed s)" "line (pos ?g 0) \<le> line ?q"
    using g by simp_all
  note w = replaceRange_written[OF wf v q, of ?d]
  have e: "ed (insertContent cfg s c) = replaceRange (ed s) ?d (pos ?g 0) ?q"
    using f g by (auto simp: insertContent_def Let_def firstPrefix_def)
  have p: "currentInsertPos (insertContent cfg s c) = advancePos (pos ?g 0) ?d"
    using f g by (auto simp: insertContent_def Let_def firstPrefix_def advancePos_def)
  show "currentInsertPos (insertContent cfg s c) = advancePos (pos ?g 0) ?d"
    by (rule p)
  show "getRange (ed (insertContent cfg s c)) (pos ?g 0)
           (currentInsertPos (insertContent cfg s c)) = ?d"
    unfolding e p by (rule w(1))
  show "validPos (ed (insertContent cfg s c)) (currentInsertPos (insertContent cfg s c))"
    unfolding e p by (rule w(2))
  show "wf_doc (ed (insertContent cfg s c))"
    unfolding e by (rule wf_doc_replaceRange[OF wf])
  show "\<not> isFirstChunk (insertContent cfg s c)"
    using f by (simp add: insertContent_def Let_def)
qed

lemma insertContent_fallback:
  assumes wf: "wf_doc (ed s)" and f: "isFirstChunk s"
    and g: "\<not> generationLine s < lineCount (ed s)"
  shows "currentInsertPos (insertContent cfg s c)
           = advancePos (pos (lineCount (ed s) - 1) (length (getLine (ed s) (lineCount (ed s) - 1))))
               ([nl, nl] @ (if responseStyle cfg = Callout then nl # js ''> '' @ replace_nl c else c))"
    and "getRange (ed (insertContent cfg s c))
           (pos (lineCount (ed s) - 1) (length (getLine (ed s) (lineCount (ed s) - 1))))
           (currentInsertPos (insertContent cfg s c))
         = [nl, nl] @ (if responseStyle cfg = Callout then nl # js ''> '' @ replace_nl c else c)"
    and "validPos (ed (insertContent cfg s c)) (currentInsertPos (insertContent cfg s c))"
    and "wf_doc (ed (insertContent cfg s c))"
proof -
  let ?e = "ed s"
  let ?p = "pos (lineCount ?e - 1) (length (getLine ?e (lineCount ?e - 1)))"
  let ?t = "[nl, nl] @ (if responseStyle cfg = Callout then nl # js ''> '' @ replace_nl c else c)"
  let ?e' = "insertAt ?e ?t ?p"
  have lc: "0 < lineCount ?e"
    by (rule wf_doc_lineCount[OF wf])
  have v: "validPos ?e ?p"
    using lc by (simp add: validPos_def)
  have l: "line ?p < lineCount ?e"
    using lc by simp
  note w = replaceRange_written[OF wf v l order_refl, of ?t, folded insertAt_def]
  have nL: "nl \<notin> set (getLine ?e (lineCount ?e - 1))"
    using wf_doc_line[OF wf, of "lineCount ?e - 1"] lc by simp
  have "lineCount ?e' = lineCount ?e + count_list ?t nl"
    using lineCount_insertAt[of ?p ?e ?t] l nL by (simp add: count_list_0_iff)
  then have ln: "lineCount ?e' - 1 = line (advancePos ?p ?t)"
    using lc by (simp add: advancePos_line)
  have "drop (ch (advancePos ?p ?t)) (getLine ?e' (line (advancePos ?p ?t))) = []"
    using w(3) by simp
  moreover have "ch (advancePos ?p ?t) \<le> length (getLine ?e' (line (advancePos ?p ?t)))"
    using w(2) by (simp add: validPos_def)
  ultimately have c: "length (getLine ?e' (line (advancePos ?p ?t))) = ch (advancePos ?p ?t)"
    by simp
  have e: "ed (insertContent cfg s c) = ?e'"
    using f g by (simp add: insertContent_def Let_def)
  have "currentInsertPos (insertContent cfg s c)
          = pos (lineCount ?e' - 1) (length (getLine ?e' (lineCount ?e' - 1)))"
    using f g by (simp add: insertContent_def Let_def)
  also have "\<dots> = advancePos ?p ?t"
    unfolding ln c by simp
  finally show p: "currentInsertPos (insertContent cfg s c) = advancePos ?p ?t" .
  show "getRange (ed (insertContent cfg s c)) ?p (currentInsertPos (insertContent cfg s c)) = ?t"
    unfolding e p by (rule w(1))
  show "validPos (ed (insertContent cfg s c)) (currentInsertPos (insertContent cfg s c))"
    unfolding e p by (rule w(2))
  show "wf_doc (ed (insertContent cfg s c))"
    unfolding e by (rule wf_doc_insertAt[OF wf])
qed

text \<open>
  Claim C2, as the code has it. The buffer is well formed. Every content delta is
  written as a text \<open>d\<close>: the style-transformed delta \<open>displayContent cfg c\<close>, with the
  marker \<open>firstPrefix cfg\<close> in front when it is the first. For a later delta, written at
  a valid tracked position \<open>p\<close>: if \<open>d\<close> has no newline the column advances by the length
  of \<open>d\<close>, otherwise the line advances by the number of newlines of \<open>d\<close> and the column is
  the length of the last segment of \<open>d\<close>; the text of the buffer between \<open>p\<close> and the new
  position is exactly \<open>d\<close>, so the position is immediately behind the last character
  written; and the buffer is again well formed and the position valid, so the same
  holds for the next delta. The first delta gives the same from the start of the
  generation line, and, when that line has vanished, from the end of the buffer with
  the separator in front. Under plain and horizontal-rule style \<open>d\<close> is the delta itself.
  After the first delta \<^verbatim>\<open>x\<close>, the delta \<^verbatim>\<open>a\nb\<close> leaves the position on the next line,
  at column 1 under plain and horizontal-rule style and at column 3 under callout style,
  where the text written is \<^verbatim>\<open>a\n> b\<close>: in both cases immediately behind \<^verbatim>\<open>b\<close>.
\<close>

theorem tracked_position:
  assumes "wf_doc (ed s)"
  shows
    "(\<not> isFirstChunk s \<and> validPos (ed s) (currentInsertPos s) \<longrightarrow>
        currentInsertPos (insertContent cfg s c)
          = (if nl \<in> set (displayContent cfg c)
             then pos (line (currentInsertPos s) + count_list (displayContent cfg c) nl)
                      (length (last (split_nl (displayContent cfg c))))
             else pos (line (currentInsertPos s))
                      (ch (currentInsertPos s) + length (displayContent cfg c)))
        \<and> getRange (ed (insertContent cfg s c)) (currentInsertPos s)
             (currentInsertPos (insertContent cfg s c)) = displayContent cfg c
        \<and> validPos (ed (insertContent cfg s c)) (currentInsertPos (insertContent cfg s c))
        \<and> wf_doc (ed (insertContent cfg s c))
        \<and> \<not> isFirstChunk (insertContent cfg s c))
     \<and> (isFirstChunk s \<and> generationLine s < lineCount (ed s) \<longrightarrow>
        currentInsertPos (insertContent cfg s c)
          = (if nl \<in> set (firstPrefix cfg @ displayContent cfg c)
             then pos (generationLine s + count_list (firstPrefix cfg @ displayContent cfg c) nl)
                      (length (last (split_nl (firstPrefix cfg @ displayContent cfg c))))
             else pos (generationLine s) (length (firstPrefix cfg @ displayContent cfg c)))
        \<and> getRange (ed (insertContent cfg s c)) (pos (generationLine s) 0)
             (currentInsertPos (insertContent cfg s c)) = firstPrefix cfg @ displayContent cfg c
        \<and> validPos (ed (insertContent cfg s c)) (currentInsertPos (insertContent cfg s c))
        \<and> wf_doc (ed (insertContent cfg s c))
        \<and> \<not> isFirstChunk (insertContent cfg s c))
     \<and> (isFirstChunk s \<and> \<not> generationLine s < lineCount (ed s) \<longrightarrow>
        getRange (ed (insertContent cfg s c))
           (pos (lineCount (ed s) - 1) (length (getLine (ed s) (lineCount (ed s) - 1))))
           (currentInsertPos (insertContent cfg s c))
          = [nl, nl] @ (if responseStyle cfg = Callout then nl # js ''> '' @ replace_nl c else c)
        \<and> validPos (ed (insertContent cfg s c)) (currentInsertPos (insertContent cfg s c))
        \<and> wf_doc (ed (insertContent cfg s c)))
     \<and> (responseStyle cfg \<noteq> Callout \<longrightarrow> displayContent cfg c = c \<and> firstPrefix cfg = [])
     \<and> (isFirstChunk s \<and> generationLine s < lineCount (ed s) \<longrightarrow>
        currentInsertPos (insertContent cfg s (js ''x''))
          = pos (generationLine s) (if responseStyle cfg = Callout then 3 else 1)
        \<and> currentInsertPos
            (insertContent cfg (insertContent cfg s (js ''x'')) (js ''a'' @ nl # js ''b''))
          = pos (generationLine s + 1) (if responseStyle cfg = Callout then 3 else 1))"
proof -
  have later: "\<not> isFirstChunk s \<and> validPos (ed s) (currentInsertPos s) \<longrightarrow>
        currentInsertPos (insertContent cfg s c)
          = (if nl \<in> set (displayContent cfg c)
             then pos (line (currentInsertPos s) + count_list (displayContent cfg c) nl)
                      (length (last (split_nl (displayContent cfg c))))
             else pos (line (currentInsertPos s))
                      (ch (currentInsertPos s) + length (displayContent cfg c)))
        \<and> getRange (ed (insertContent cfg s c)) (currentInsertPos s)
             (currentInsertPos (insertContent cfg s c)) = displayContent cfg c
        \<and> validPos (ed (insertContent cfg s c)) (currentInsertPos (insertContent cfg s c))
        \<and> wf_doc (ed (insertContent cfg s c))
        \<and> \<not> isFirstChunk (insertContent cfg s c)"
  proof (intro impI)
    assume h: "\<not> isFirstChunk s \<and> validPos (ed s) (currentInsertPos s)"
    note a = insertContent_later[OF assms h[THEN conjunct1] h[THEN conjunct2], of cfg c]
    show "currentInsertPos (insertContent cfg s c)
          = (if nl \<in> set (displayContent cfg c)
             then pos (line (currentInsertPos s) + count_list (displayContent cfg c) nl)
                      (length (last (split_nl (displayContent cfg c))))
             else pos (line (currentInsertPos s))
                      (ch (currentInsertPos s) + length (displayContent cfg c)))
        \<and> getRange (ed (insertContent cfg s c)) (currentInsertPos s)
             (currentInsertPos (insertContent cfg s c)) = displayContent cfg c
        \<and> validPos (ed (insertContent cfg s c)) (currentInsertPos (insertContent cfg s c))
        \<and> wf_doc (ed (insertContent cfg s c))
        \<and> \<not> isFirstChunk (insertContent cfg s c)"
      by (intro conjI) (fact a(1)[unfolded advancePos_cases] a(2) a(3) a(4) a(5))+
  qed
  have first: "isFirstChunk s \<and> generationLine s < lineCount (ed s) \<longrightarrow>
        currentInsertPos (insertContent cfg s c)
          = (if nl \<in> set (firstPrefix cfg @ displayContent cfg c)
             then pos (generationLine s + count_list (firstPrefix cfg @ displayContent cfg c) nl)
                      (length (last (split_nl (firstPrefix cfg @ displayContent cfg c))))
             else pos (generationLine s) (length (firstPrefix cfg @ displayContent cfg c)))
        \<and> getRange (ed (insertContent cfg s c)) (pos (generationLine s) 0)
             (currentInsertPos (insertContent cfg s c)) = firstPrefix cfg @ displayContent cfg c
        \<and> validPos (ed (insertContent cfg s c)) (currentInsertPos (insertContent cfg s c))
        \<and> wf_doc (ed (insertContent cfg s c))
        \<and> \<not> isFirstChunk (insertContent cfg s c)"
  proof (intro impI)
    assume h: "isFirstChunk s \<and> generationLine s < lineCount (ed s)"
    note a = insertContent_first[OF assms h[THEN conjunct1] h[THEN conjunct2], of cfg c]
    show "currentInsertPos (insertContent cfg s c)
          = (if nl \<in> set (firstPrefix cfg @ displayContent cfg c)
             then pos (generationLine s + count_list (firstPrefix cfg @ displayContent cfg c) nl)
                      (length (last (split_nl (firstPrefix cfg @ displayContent cfg c))))
             else pos (generationLine s) (length (firstPrefix cfg @ displayContent cfg c)))
        \<and> getRange (ed (insertContent cfg s c)) (pos (generationLine s) 0)
             (currentInsertPos (insertContent cfg s c)) = firstPrefix cfg @ displayContent cfg c
        \<and> validPos (ed (insertContent cfg s c)) (currentInsertPos (insertContent cfg s c))
        \<and> wf_doc (ed (insertContent cfg s c))
        \<and> \<not> isFirstChunk (insertContent cfg s c)"
      by (intro conjI)
         (fact a(1)[unfolded advancePos_cases pos_simps add_0] a(2) a(3) a(4) a(5))+
  qed
  have fb: "isFirstChunk s \<and> \<not> generationLine s < lineCount (ed s) \<longrightarrow>
        getRange (ed (insertContent cfg s c))
           (pos (lineCount (ed s) - 1) (length (getLine (ed s) (lineCount (ed s) - 1))))
           (currentInsertPos (insertContent cfg s c))
          = [nl, nl] @ (if responseStyle cfg = Callout then nl # js ''> '' @ replace_nl c else c)
        \<and> validPos (ed (insertContent cfg s c)) (currentInsertPos (insertContent cfg s c))
        \<and> wf_doc (ed (insertContent cfg s c))"
  proof (intro impI)
    assume h: "isFirstChunk s \<and> \<not> generationLine s < lineCount (ed s)"
    note a = insertContent_fallback[OF assms h[THEN conjunct1] h[THEN conjunct2], of cfg c]
    show "getRange (ed (insertContent cfg s c))
           (pos (lineCount (ed s) - 1) (length (getLine (ed s) (lineCount (ed s) - 1))))
           (currentInsertPos (insertContent cfg s c))
          = [nl, nl] @ (if responseStyle cfg = Callout then nl # js ''> '' @ replace_nl c else c)
        \<and> validPos (ed (insertContent cfg s c)) (currentInsertPos (insertContent cfg s c))
        \<and> wf_doc (ed (insertContent cfg s c))"
      by (intro conjI) (fact a(2) a(3) a(4))+
  qed
  have plain: "responseStyle cfg \<noteq> Callout \<longrightarrow> displayContent cfg c = c \<and> firstPrefix cfg = []"
    by (simp add: displayContent_def firstPrefix_def)
  have ex: "currentInsertPos (insertContent cfg s (js ''x''))
          = pos (generationLine s) (if responseStyle cfg = Callout then 3 else 1)
        \<and> currentInsertPos
            (insertContent cfg (insertContent cfg s (js ''x'')) (js ''a'' @ nl # js ''b''))
          = pos (generationLine s + 1) (if responseStyle cfg = Callout then 3 else 1)"
    if f: "isFirstChunk s" and g: "generationLine s < lineCount (ed s)"
  proof -
    let ?s1 = "insertContent cfg s (js ''x'')"
    note a = insertContent_first[OF assms f g, of cfg "js ''x''"]
    note b = insertContent_later[OF a(4) a(5) a(3), of cfg "js ''a'' @ nl # js ''b''"]
    have p1: "currentInsertPos ?s1 = pos (generationLine s) (if responseStyle cfg = Callout then 3 else 1)"
      unfolding a(1)
      by (simp add: advancePos_def displayContent_def firstPrefix_def js_def nl_def)
    have "advancePos (pos (generationLine s) k) (displayContent cfg (js ''a'' @ nl # js ''b''))
            = pos (generationLine s + 1) (if responseStyle cfg = Callout then 3 else 1)" for k
      by (simp add: advancePos_def displayContent_def js_def nl_def)
    then show ?thesis
      using p1 b(1) by simp
  qed
  show ?thesis
    by (intro conjI impI later first fb plain ex; elim conjE; assumption)
qed

theorem tracked_position_witness:
  "wf_doc (ed exStart)
   \<and> (isFirstChunk exStart \<and> generationLine exStart < lineCount (ed exStart))
   \<and> generationLine exStart = 3 \<and> responseStyle exSettings \<noteq> Callout
   \<and> currentInsertPos (insertContent exSettings exStart (js ''x''))
       = pos (generationLine exStart) (if responseStyle exSettings = Callout then 3 else 1)
   \<and> currentInsertPos
         (insertContent exSettings (insertContent exSettings exStart (js ''x''))
            (js ''a'' @ nl # js ''b''))
       = pos (generationLine exStart + 1) (if responseStyle exSettings = Callout then 3 else 1)
   \<and> wf_doc (ed (insertContent exSettings exStart (js ''x'')))
   \<and> (\<not> isFirstChunk (insertContent exSettings exStart (js ''x''))
       \<and> validPos (ed (insertContent exSettings exStart (js ''x'')))
            (currentInsertPos (insertContent exSettings exStart (js ''x''))))
   \<and> getRange
         (ed (insertContent exSettings (insertContent exSettings exStart (js ''x''))
                (js ''a'' @ nl # js ''b'')))
         (currentInsertPos (insertContent exSettings exStart (js ''x'')))
         (currentInsertPos
            (insertContent exSettings (insertContent exSettings exStart (js ''x''))
               (js ''a'' @ nl # js ''b'')))
       = displayContent exSettings (js ''a'' @ nl # js ''b'')"
proof -
  let ?x = "insertContent exSettings exStart (js ''x'')"
  have wf: "wf_doc (ed exStart)"
    by code_simp
  have f: "isFirstChunk exStart \<and> generationLine exStart < lineCount (ed exStart)"
    by code_simp
  have g: "generationLine exStart = 3" "responseStyle exSettings \<noteq> Callout"
    by code_simp+
  note T = tracked_position[OF wf, of exSettings "js ''a'' @ nl # js ''b''"]
  note T2 = T[THEN conjunct2, THEN conjunct1, THEN mp, OF f]
  note T5 = T[THEN conjunct2, THEN conjunct2, THEN conjunct2, THEN conjunct2, THEN mp, OF f]
  note X = tracked_position[OF wf, of exSettings "js ''x''", THEN conjunct2, THEN conjunct1,
             THEN mp, OF f]
  have wx: "wf_doc (ed ?x)"
    by (rule X[THEN conjunct2, THEN conjunct2, THEN conjunct2, THEN conjunct1])
  have vx: "\<not> isFirstChunk ?x \<and> validPos (ed ?x) (currentInsertPos ?x)"
    using X by blast
  note L = tracked_position[OF wx, of exSettings "js ''a'' @ nl # js ''b''", THEN conjunct1,
             THEN mp, OF vx]
  show ?thesis
    by (intro conjI)
       (fact wf f[THEN conjunct1] f[THEN conjunct2] g T5[THEN conjunct1] T5[THEN conjunct2]
             wx vx[THEN conjunct1] vx[THEN conjunct2] L[THEN conjunct2, THEN conjunct1])+
qed

text \<open>
  Under callout style, in the example buffer, the first delta \<^verbatim>\<open>x\<close> leaves the position at
  line 4, column 3, and the delta \<^verbatim>\<open>a\nb\<close> then leaves it at line 5, column 3, not
  column 1.
\<close>

theorem tracked_position_callout:
  "currentInsertPos (insertContent exCallout exStartCallout (js ''x'')) = pos 4 3
   \<and> currentInsertPos
         (insertContent exCallout (insertContent exCallout exStartCallout (js ''x''))
            (js ''a'' @ nl # js ''b''))
       = pos 5 3
   \<and> currentInsertPos
         (insertContent exCallout (insertContent exCallout exStartCallout (js ''x''))
            (js ''a'' @ nl # js ''b''))
       \<noteq> pos (line (currentInsertPos (insertContent exCallout exStartCallout (js ''x''))) + 1) 1"
  by code_simp

section \<open>The reading loop\<close>

lemma lineContents_Nil [simp]: "lineContents parse [] = []"
  by (simp add: lineContents_def map_filter_simps)

lemma lineContents_append:
  "lineContents parse (a @ b) = lineContents parse a @ lineContents parse b"
  by (simp add: lineContents_def List.map_filter_def)

lemma lineContents_Cons:
  "lineContents parse (ln # lns) =
     (case lineDelta parse ln of
        None \<Rightarrow> []
      | Some d \<Rightarrow> if content d \<noteq> [] then [content d] else [])
     @ lineContents parse lns"
  by (simp add: lineContents_def map_filter_simps split: option.splits)

lemma processLine_None:
  "lineDelta parse ln = None \<Longrightarrow> \<exists>ns. processLine cfg parse s ln = s\<lparr>notices := ns\<rparr>"
proof -
  assume n: "lineDelta parse ln = None"
  have "processLine cfg parse s ln = s\<lparr>notices := notices s\<rparr>
        \<or> processLine cfg parse s ln
            = s\<lparr>notices := notices s @ [js ''Stream Error: '' @ trim ln]\<rparr>"
    using n by (auto simp: processLine_def lineDelta_def Let_def split: if_splits)
  then show ?thesis by blast
qed

lemma processLine_Some:
  assumes a: "lineDelta parse ln = Some d"
  shows "processLine cfg parse s ln =
     (if content d \<noteq> []
      then insertContent cfg (s\<lparr>collectedAnnotations := collectedAnnotations s @ annotations d\<rparr>)
             (content d)
      else s\<lparr>collectedAnnotations := collectedAnnotations s @ annotations d\<rparr>)"
proof -
  have c: "trim ln \<noteq> []" "trim ln \<noteq> js '': OPENROUTER PROCESSING''"
    "startsWith (trim ln) (js ''data: '')" "drop 6 (trim ln) \<noteq> js ''[DONE]''"
    "parse (drop 6 (trim ln)) = Some d"
    using a by (simp_all add: lineDelta_def Let_def split: if_splits)
  show ?thesis
    unfolding processLine_def Let_def using c by simp
qed

lemma streamed_upd [simp]:
  "streamed cfg g ds (s\<lparr>notices := ns\<rparr>) = streamed cfg g ds s"
  "streamed cfg g ds (s\<lparr>collectedAnnotations := an\<rparr>) = streamed cfg g ds s"
  "streamed cfg g ds (s\<lparr>buffer := b\<rparr>) = streamed cfg g ds s"
  "streamed cfg g ds (s\<lparr>phase := ph\<rparr>) = streamed cfg g ds s"
  by (simp_all add: streamed_def)

lemma insertContent_fields [simp]:
  "phase (insertContent cfg s c) = phase s"
  "buffer (insertContent cfg s c) = buffer s"
  "generationLine (insertContent cfg s c) = generationLine s"
  "notices (insertContent cfg s c) = notices s"
  "collectedAnnotations (insertContent cfg s c) = collectedAnnotations s"
  by (simp_all add: insertContent_def Let_def)

lemma processLine_fields [simp]:
  "phase (processLine cfg parse s ln) = phase s"
  "buffer (processLine cfg parse s ln) = buffer s"
  "generationLine (processLine cfg parse s ln) = generationLine s"
  by (simp_all add: processLine_def Let_def split: option.splits)

lemma foldl_processLine_fields [simp]:
  "phase (foldl (processLine cfg parse) s lns) = phase s"
  "buffer (foldl (processLine cfg parse) s lns) = buffer s"
  "generationLine (foldl (processLine cfg parse) s lns) = generationLine s"
  by (induction lns arbitrary: s) simp_all

lemma onChunk_fields [simp]:
  "phase (onChunk cfg parse s c) = phase s"
  "buffer (onChunk cfg parse s c) = last (split_nl (buffer s @ c))"
  "generationLine (onChunk cfg parse s c) = generationLine s"
  by (simp_all add: onChunk_def Let_def)

lemma streamed_insertContent:
  assumes st: "streamed cfg g ds s" and nc: "nl \<notin> set c" and nd: "\<forall>d\<in>set ds. nl \<notin> set d"
  shows "streamed cfg g (ds @ [c]) (insertContent cfg s c)"
proof (cases "ds = []")
  case True
  let ?d = "firstPrefix cfg @ c"
  have f: "isFirstChunk s" and g: "g < lineCount (ed s)" and gl: "generationLine s = g"
    and tl: "timerRunning s \<longrightarrow> loadingInterval s"
    using st True by (simp_all add: streamed_def)
  have dc: "displayContent cfg c = c"
    using nc by (simp add: displayContent_def replace_nl_plain)
  have nn: "nl \<notin> set ?d"
    using nc firstPrefix_no_nl[of cfg] by simp
  have e: "ed (insertContent cfg s c)
             = replaceRange (ed s) ?d (pos g 0) (pos g (length (getLine (ed s) g)))"
    using f g gl dc by (auto simp: insertContent_def Let_def firstPrefix_def)
  have "doc (ed (insertContent cfg s c)) = (doc (ed s))[g := ?d]"
    unfolding e by (rule doc_replace_whole_line[OF g nn])
  from getLine_update[OF g this]
  have l: "getLine (ed (insertContent cfg s c)) g = ?d"
    and c: "lineCount (ed (insertContent cfg s c)) = lineCount (ed s)"
    by simp_all
  have p: "currentInsertPos (insertContent cfg s c) = pos g (length ?d)"
    using f g gl dc split_nl_no_nl[OF nn]
    by (auto simp: insertContent_def Let_def firstPrefix_def)
  have t: "\<not> timerRunning (insertContent cfg s c)"
    by (rule insertContent_first_timer[OF f tl])
  have nf: "\<not> isFirstChunk (insertContent cfg s c)"
    using f by (simp add: insertContent_def Let_def)
  show ?thesis
    using True l c p t nf g gl by (simp add: streamed_def)
next
  case False
  let ?l = "firstPrefix cfg @ concat ds"
  have nf: "\<not> isFirstChunk s" and nt: "\<not> timerRunning s" and g: "g < lineCount (ed s)"
    and gl: "generationLine s = g" and l: "getLine (ed s) g = ?l"
    and p: "currentInsertPos s = pos g (length ?l)"
    using st False by (simp_all add: streamed_def)
  have dc: "displayContent cfg c = c"
    using nc by (simp add: displayContent_def replace_nl_plain)
  have nl: "nl \<notin> set (getLine (ed s) g)"
    unfolding l using nd firstPrefix_no_nl[of cfg] by auto
  have e: "ed (insertContent cfg s c) = insertAt (ed s) c (pos g (length (getLine (ed s) g)))"
    using nf dc p l by (simp add: insertContent_def)
  have "doc (ed (insertContent cfg s c)) = (doc (ed s))[g := getLine (ed s) g @ c]"
    unfolding e by (rule doc_insertAt_end_plain[OF g nl nc])
  from getLine_update[OF g this]
  have l': "getLine (ed (insertContent cfg s c)) g = ?l @ c"
    and c: "lineCount (ed (insertContent cfg s c)) = lineCount (ed s)"
    using l by simp_all
  have p': "currentInsertPos (insertContent cfg s c) = pos g (length ?l + length c)"
    using nf dc p split_nl_no_nl[OF nc]
    by (simp add: insertContent_def advancePos_def)
  have k: "\<not> isFirstChunk (insertContent cfg s c)" "\<not> timerRunning (insertContent cfg s c)"
    using nf nt by (simp_all add: insertContent_def)
  show ?thesis
    using l' c p' k g gl by (simp add: streamed_def)
qed

lemma streamed_processLine:
  assumes "streamed cfg g ds s"
    and "\<forall>d\<in>set (ds @ lineContents parse [ln]). nl \<notin> set d"
  shows "streamed cfg g (ds @ lineContents parse [ln]) (processLine cfg parse s ln)"
proof (cases "lineDelta parse ln")
  case None
  then show ?thesis
    using processLine_None[OF None, of cfg s] assms by (auto simp: lineContents_Cons)
next
  case (Some d)
  show ?thesis
  proof (cases "content d = []")
    case True
    then show ?thesis
      using Some assms by (simp add: processLine_Some lineContents_Cons)
  next
    case False
    have "streamed cfg g (ds @ [content d])
            (insertContent cfg (s\<lparr>collectedAnnotations := collectedAnnotations s @ annotations d\<rparr>)
               (content d))"
      using assms Some False
      by (intro streamed_insertContent) (simp_all add: lineContents_Cons)
    then show ?thesis
      using Some False by (simp add: processLine_Some lineContents_Cons)
  qed
qed

lemma streamed_foldl:
  assumes "streamed cfg g ds s"
    and "\<forall>d\<in>set (ds @ lineContents parse lns). nl \<notin> set d"
  shows "streamed cfg g (ds @ lineContents parse lns) (foldl (processLine cfg parse) s lns)"
  using assms
proof (induction lns arbitrary: s ds)
  case Nil
  then show ?case by simp
next
  case (Cons ln lns)
  have split: "lineContents parse (ln # lns) = lineContents parse [ln] @ lineContents parse lns"
    using lineContents_append[of parse "[ln]" lns] by simp
  have "streamed cfg g (ds @ lineContents parse [ln]) (processLine cfg parse s ln)"
    using Cons.prems by (intro streamed_processLine) (auto simp: split)
  from Cons.IH[OF this] show ?case
    using Cons.prems(2) by (simp add: split)
qed

lemma streamed_onChunk:
  assumes "streamed cfg g ds s"
    and "\<forall>d\<in>set (ds @ lineContents parse (butlast (split_nl (buffer s @ c)))). nl \<notin> set d"
  shows "streamed cfg g (ds @ lineContents parse (butlast (split_nl (buffer s @ c))))
           (onChunk cfg parse s c)"
  unfolding onChunk_def Let_def
  using assms by (intro streamed_foldl) simp_all

lemma streamed_tick:
  assumes "streamed cfg g ds s"
  shows "streamed cfg g ds (step cfg parse s Tick)"
proof (cases "timerRunning s")
  case False
  then show ?thesis using assms by simp
next
  case True
  then have d: "ds = []"
    using assms by (auto simp: streamed_def split: if_splits)
  have g: "generationLine s < lineCount (ed s)"
    using assms by (simp add: streamed_def)
  show ?thesis
    using True assms d tick_lineCount[OF g, of cfg] tick_timer_mono[of cfg s]
    by (auto simp: streamed_def)
qed

lemma wire_Cons:
  "wire (Tick # evs) = wire evs" "wire (Chunk c # evs) = c @ wire evs"
  by (simp_all add: wire_def)

lemma streamed_run:
  assumes "list_all isStreamEvent evs" and "phase s = Reading" and "streamed cfg g ds s"
    and "nl \<notin> set (buffer s)"
    and "\<forall>d\<in>set (ds @ lineContents parse (butlast (split_nl (buffer s @ wire evs)))). nl \<notin> set d"
  shows "streamed cfg g (ds @ lineContents parse (butlast (split_nl (buffer s @ wire evs))))
           (run cfg parse s evs)
         \<and> phase (run cfg parse s evs) = Reading"
  using assms
proof (induction evs arbitrary: s ds)
  case Nil
  then show ?case
    by (simp add: run_Nil wire_def split_nl_no_nl)
next
  case (Cons ev evs)
  from Cons.prems(1) have rest: "list_all isStreamEvent evs"
    by simp
  from Cons.prems(1) consider "ev = Tick" | c where "ev = Chunk c"
    by (cases ev) simp_all
  then show ?case
  proof cases
    case 1
    let ?s1 = "step cfg parse s Tick"
    have b: "buffer ?s1 = buffer s" and p: "phase ?s1 = Reading"
      using Cons.prems(2) by simp_all
    have st: "streamed cfg g ds ?s1"
      by (rule streamed_tick[OF Cons.prems(3)])
    show ?thesis
      using Cons.IH[OF rest p st] Cons.prems(4,5) b 1
      by (simp add: run_Cons wire_Cons)
  next
    case 2
    let ?s1 = "onChunk cfg parse s c"
    let ?l1 = "butlast (split_nl (buffer s @ c))"
    let ?b1 = "last (split_nl (buffer s @ c))"
    have sp: "butlast (split_nl (buffer s @ wire (ev # evs)))
                = ?l1 @ butlast (split_nl (?b1 @ wire evs))"
      using butlast_split_nl_append[of "buffer s @ c" "wire evs"] 2
      by (simp add: wire_Cons)
    have nb: "nl \<notin> set ?b1"
      by (rule split_nl_segments[of _ "buffer s @ c"]) simp
    have all: "\<forall>d\<in>set (ds @ lineContents parse ?l1
                  @ lineContents parse (butlast (split_nl (?b1 @ wire evs)))). nl \<notin> set d"
      using Cons.prems(5) unfolding sp lineContents_append by simp
    have st: "streamed cfg g (ds @ lineContents parse ?l1) ?s1"
      using all by (intro streamed_onChunk[OF Cons.prems(3)]) auto
    have p: "phase ?s1 = Reading"
      using Cons.prems(2) by simp
    have "streamed cfg g
             ((ds @ lineContents parse ?l1)
              @ lineContents parse (butlast (split_nl (buffer ?s1 @ wire evs))))
             (run cfg parse ?s1 evs)
          \<and> phase (run cfg parse ?s1 evs) = Reading"
      using all nb by (intro Cons.IH[OF rest p st]) simp_all
    then show ?thesis
      using 2 Cons.prems(2) unfolding sp lineContents_append
      by (simp add: run_Cons)
  qed
qed

lemma getLine_setCursor [simp]:
  "getLine (setCursor e p) n = getLine e n" "lineCount (setCursor e p) = lineCount e"
  by (simp_all add: setCursor_def getLine_def lineCount_def)

lemma settled_insert_nl:
  assumes s: "settled g l s" and n: "nl \<notin> set l" and p: "g < line p'"
  shows "settled g l (s\<lparr>ed := insertAt (ed s) (nl # r) (currentInsertPos s),
                         currentInsertPos := p'\<rparr>)"
proof -
  have g: "g < lineCount (ed s)" and l: "getLine (ed s) g = l"
    using s by (simp_all add: settled_def)
  have c: "g < lineCount (insertAt (ed s) (nl # r) (currentInsertPos s))"
    using lineCount_insertAt_ge[of "ed s" "nl # r" "currentInsertPos s"] g by simp
  have "getLine (insertAt (ed s) (nl # r) (currentInsertPos s)) g = l"
  proof (cases "g < line (currentInsertPos s)")
    case True
    then show ?thesis
      using getLine_insertAt_before[OF True g] l by simp
  next
    case False
    then have "currentInsertPos s = pos g (length (getLine (ed s) g))"
      using s by (simp add: settled_def)
    then show ?thesis
      using getLine_insertAt_end_nl[OF g, of r] n l by simp
  qed
  then show ?thesis
    using c p by (simp add: settled_def)
qed

lemma advanceLines_nl: "line p < line (advanceLines p (nl # r))"
  by (simp add: advanceLines_def Let_def)

lemma settled_line: "settled g l s \<Longrightarrow> g \<le> line (currentInsertPos s)"
  by (auto simp: settled_def)

lemma sourcesText_nl: "\<exists>r. sourcesText m = nl # r"
  by (simp add: sourcesText_concat)

lemma settled_appendSources:
  assumes "settled g l s" and "nl \<notin> set l"
  shows "settled g l (appendSources cfg s)"
proof -
  let ?m = "uniqueSources (collectedAnnotations s)"
  obtain r where r: "sourcesText ?m = nl # r"
    using sourcesText_nl by blast
  have r': "replace_nl (sourcesText ?m) = nl # js ''> '' @ replace_nl r"
    unfolding r by simp
  have p: "g < line (advanceLines (currentInsertPos s) (nl # x))" for x
    using settled_line[OF assms(1)] advanceLines_nl[of "currentInsertPos s" x] by simp
  show ?thesis
    using settled_insert_nl[OF assms p] assms(1)
    unfolding appendSources_def Let_def r r' by simp
qed

lemma settled_appendDivider:
  assumes "settled g l s" and "nl \<notin> set l"
  shows "settled g l (appendDivider cfg s)"
proof -
  have p: "g < line (advanceLines (currentInsertPos s) (nl # x))" for x
    using settled_line[OF assms(1)] advanceLines_nl[of "currentInsertPos s" x] by simp
  show ?thesis
    using settled_insert_nl[OF assms p] assms(1)
    unfolding appendDivider_def Let_def by simp
qed

lemma placeCursor_line:
  assumes "settled g l s" and "nl \<notin> set l"
  shows "getLine (ed (placeCursor cfg s)) g = l"
proof -
  have p: "g < line (pos (line (currentInsertPos s) + 1) 0)"
    using settled_line[OF assms(1)] by simp
  note a = settled_insert_nl[OF assms p, of "[]"]
  show ?thesis
    using a assms(1) unfolding placeCursor_def Let_def
    by (auto simp: settled_def)
qed

lemma onDone_line:
  assumes "settled g l s" and "nl \<notin> set l"
  shows "getLine (ed (onDone cfg s)) g = l"
  unfolding onDone_def
  using placeCursor_line[OF settled_appendDivider[OF settled_appendSources[OF assms] assms(2)]
          assms(2), of cfg cfg cfg]
  by simp

lemma appendSources_timer [simp]:
  "timerRunning (appendSources cfg s) = timerRunning s"
  "isFirstChunk (appendSources cfg s) = isFirstChunk s"
  by (simp_all add: appendSources_def Let_def)

lemma appendDivider_timer [simp]:
  "timerRunning (appendDivider cfg s) = timerRunning s"
  "isFirstChunk (appendDivider cfg s) = isFirstChunk s"
  by (simp_all add: appendDivider_def Let_def)

lemma placeCursor_timer [simp]:
  "timerRunning (placeCursor cfg s) = timerRunning s"
  "isFirstChunk (placeCursor cfg s) = isFirstChunk s"
  by (simp_all add: placeCursor_def Let_def)

lemma onDone_fields [simp]:
  "timerRunning (onDone cfg s) = timerRunning s"
  "isFirstChunk (onDone cfg s) = isFirstChunk s"
  "phase (onDone cfg s) = Returned"
  by (simp_all add: onDone_def)

lemma streamed_settled:
  "streamed cfg g ds s \<Longrightarrow> ds \<noteq> [] \<Longrightarrow> settled g (firstPrefix cfg @ concat ds) s"
  by (simp add: streamed_def settled_def)

lemma streamed_ticks:
  assumes "list_all (\<lambda>ev. ev = Tick) pre" and "streamed cfg g ds s"
  shows "streamed cfg g ds (run cfg parse s pre) \<and> phase (run cfg parse s pre) = phase s"
  using assms
proof (induction pre arbitrary: s)
  case Nil
  then show ?case by (simp add: run_Nil)
next
  case (Cons ev pre)
  then have ev: "ev = Tick" and rest: "list_all (\<lambda>ev. ev = Tick) pre"
    by simp_all
  have "streamed cfg g ds (step cfg parse s ev)"
    unfolding ev by (rule streamed_tick[OF Cons.prems(2)])
  from Cons.IH[OF rest this] show ?case
    using ev by (simp add: run_Cons)
qed

lemma psq_streamed:
  assumes "phase (processStreamingQuery cfg e n t) = AwaitingResponse" and "n < lineCount e"
  shows "streamed cfg (n + snd (snd (styleLayout (responseStyle cfg)))) []
           (processStreamingQuery cfg e n t)"
  using psq_lineCount[OF assms] psq_fields[OF assms(1)]
  by (simp add: streamed_def)

text \<open>The state in which the reading loop has consumed the events \<open>mid\<close>.\<close>

lemma stream_reached:
  assumes n: "lineNum < lineCount e" and f: "findModel e lineNum \<noteq> None"
    and k: "apiKey cfg \<noteq> []" and pre: "list_all (\<lambda>ev. ev = Tick) pre"
    and ok: "ok r" "hasBody r" and mid: "list_all isStreamEvent mid"
    and nn: "\<forall>d\<in>set (contentDeltas parse (wire mid)). nl \<notin> set d"
  shows "streamed cfg (lineNum + snd (snd (styleLayout (responseStyle cfg))))
           (contentDeltas parse (wire mid))
           (run cfg parse (processStreamingQuery cfg e lineNum lineText)
              (pre @ FetchResolved r # mid))
         \<and> phase (run cfg parse (processStreamingQuery cfg e lineNum lineText)
                    (pre @ FetchResolved r # mid)) = Reading"
proof -
  let ?g = "lineNum + snd (snd (styleLayout (responseStyle cfg)))"
  let ?s0 = "processStreamingQuery cfg e lineNum lineText"
  let ?s1 = "run cfg parse ?s0 pre"
  let ?s2 = "onResponse ?s1 r"
  have ph: "phase ?s0 = AwaitingResponse"
    using f k by (simp add: psq_phase)
  have s1: "streamed cfg ?g [] ?s1" and p1: "phase ?s1 = AwaitingResponse"
    using streamed_ticks[OF pre psq_streamed[OF ph n], of parse] ph by simp_all
  have s2: "streamed cfg ?g [] ?s2" and p2: "phase ?s2 = Reading" and b2: "buffer ?s2 = []"
    using s1 ok by (simp_all add: onResponse_def)
  have r: "run cfg parse ?s0 (pre @ FetchResolved r # mid) = run cfg parse ?s2 mid"
    using p1 by (simp add: run_append run_Cons)
  show ?thesis
    unfolding r
    using streamed_run[OF mid p2 s2, of parse] nn b2
    by (simp add: contentDeltas_def)
qed

lemma stream_line:
  assumes n: "lineNum < lineCount e" and f: "findModel e lineNum \<noteq> None"
    and k: "apiKey cfg \<noteq> []" and pre: "list_all (\<lambda>ev. ev = Tick) pre"
    and ok: "ok r" "hasBody r" and mid: "list_all isStreamEvent mid"
    and nn: "\<forall>d\<in>set (contentDeltas parse (wire mid)). nl \<notin> set d"
    and ne: "contentDeltas parse (wire mid) \<noteq> []"
  shows "getLine (ed (run cfg parse (processStreamingQuery cfg e lineNum lineText)
                        (pre @ FetchResolved r # mid @ Done # post)))
           (lineNum + snd (snd (styleLayout (responseStyle cfg))))
         = firstPrefix cfg @ concat (contentDeltas parse (wire mid))"
proof -
  let ?g = "lineNum + snd (snd (styleLayout (responseStyle cfg)))"
  let ?ds = "contentDeltas parse (wire mid)"
  let ?s3 = "run cfg parse (processStreamingQuery cfg e lineNum lineText)
               (pre @ FetchResolved r # mid)"
  note a = stream_reached[OF n f k pre ok mid nn, of lineText]
  have st: "streamed cfg ?g ?ds ?s3" and p3: "phase ?s3 = Reading"
    using a by simp_all
  have nt: "\<not> timerRunning ?s3"
    using st ne by (simp add: streamed_def)
  have nl: "nl \<notin> set (firstPrefix cfg @ concat ?ds)"
    using nn firstPrefix_no_nl[of cfg] by auto
  have l: "getLine (ed (onDone cfg ?s3)) ?g = firstPrefix cfg @ concat ?ds"
    by (rule onDone_line[OF streamed_settled[OF st ne] nl])
  have "run cfg parse (processStreamingQuery cfg e lineNum lineText)
          (pre @ FetchResolved r # mid @ Done # post)
        = run cfg parse (onDone cfg ?s3) post"
    using p3 run_append[of cfg parse _ "pre @ FetchResolved r # mid" "Done # post"]
    by (simp add: run_Cons)
  also have "\<dots> = onDone cfg ?s3"
    using nt by (intro run_returned) simp_all
  finally show ?thesis
    using l by simp
qed

lemma processLine_quiet:
  assumes "lineContents parse [ln] = []"
  shows "\<exists>ns an. processLine cfg parse s ln = s\<lparr>notices := ns, collectedAnnotations := an\<rparr>"
proof (cases "lineDelta parse ln")
  case None
  then obtain ns where "processLine cfg parse s ln = s\<lparr>notices := ns\<rparr>"
    using processLine_None[OF None, of cfg s] by blast
  then have "processLine cfg parse s ln
               = s\<lparr>notices := ns, collectedAnnotations := collectedAnnotations s\<rparr>"
    by simp
  then show ?thesis by blast
next
  case (Some d)
  then have "content d = []"
    using assms by (simp add: lineContents_Cons split: if_splits)
  then have "processLine cfg parse s ln
               = s\<lparr>notices := notices s,
                    collectedAnnotations := collectedAnnotations s @ annotations d\<rparr>"
    using Some by (simp add: processLine_Some)
  then show ?thesis by blast
qed

lemma foldl_processLine_quiet:
  assumes "lineContents parse lns = []"
  shows "\<exists>ns an. foldl (processLine cfg parse) s lns
                    = s\<lparr>notices := ns, collectedAnnotations := an\<rparr>"
  using assms
proof (induction lns arbitrary: s)
  case Nil
  have "s = s\<lparr>notices := notices s, collectedAnnotations := collectedAnnotations s\<rparr>"
    by simp
  then show ?case
    by (simp only: foldl_Nil) blast
next
  case (Cons ln lns)
  have sp: "lineContents parse (ln # lns) = lineContents parse [ln] @ lineContents parse lns"
    using lineContents_append[of parse "[ln]" lns] by simp
  then have a: "lineContents parse [ln] = []" and b: "lineContents parse lns = []"
    using Cons.prems by simp_all
  obtain ns an where 1: "processLine cfg parse s ln = s\<lparr>notices := ns, collectedAnnotations := an\<rparr>"
    using processLine_quiet[OF a, of cfg s] by blast
  obtain ns' an' where 2: "foldl (processLine cfg parse) (processLine cfg parse s ln) lns
      = (processLine cfg parse s ln)\<lparr>notices := ns', collectedAnnotations := an'\<rparr>"
    using Cons.IH[OF b, of "processLine cfg parse s ln"] by blast
  have "foldl (processLine cfg parse) s (ln # lns) = s\<lparr>notices := ns', collectedAnnotations := an'\<rparr>"
    using 2[unfolded 1] by (simp add: 1)
  then show ?case by blast
qed

lemma onChunk_quiet:
  assumes "lineContents parse (butlast (split_nl (buffer s @ c))) = []"
  shows "timerRunning (onChunk cfg parse s c) = timerRunning s"
    and "isFirstChunk (onChunk cfg parse s c) = isFirstChunk s"
    and "loadingInterval (onChunk cfg parse s c) = loadingInterval s"
    and "ed (onChunk cfg parse s c) = ed s"
proof -
  obtain ns an where
    "foldl (processLine cfg parse) (s\<lparr>buffer := last (split_nl (buffer s @ c))\<rparr>)
        (butlast (split_nl (buffer s @ c)))
     = (s\<lparr>buffer := last (split_nl (buffer s @ c))\<rparr>)\<lparr>notices := ns, collectedAnnotations := an\<rparr>"
    using foldl_processLine_quiet[OF assms] by blast
  then have e: "onChunk cfg parse s c
     = (s\<lparr>buffer := last (split_nl (buffer s @ c))\<rparr>)\<lparr>notices := ns, collectedAnnotations := an\<rparr>"
    by (simp add: onChunk_def Let_def)
  show "timerRunning (onChunk cfg parse s c) = timerRunning s"
    and "isFirstChunk (onChunk cfg parse s c) = isFirstChunk s"
    and "loadingInterval (onChunk cfg parse s c) = loadingInterval s"
    and "ed (onChunk cfg parse s c) = ed s"
    unfolding e by simp_all
qed

lemma processLine_later:
  assumes "\<not> isFirstChunk s"
  shows "timerRunning (processLine cfg parse s ln) = timerRunning s
         \<and> \<not> isFirstChunk (processLine cfg parse s ln)"
proof (cases "lineDelta parse ln")
  case None
  then show ?thesis
    using processLine_None[OF None, of cfg s] assms by auto
next
  case (Some d)
  then show ?thesis
    using assms by (simp add: processLine_Some insertContent_def)
qed

lemma foldl_processLine_later:
  "\<not> isFirstChunk s \<Longrightarrow>
   timerRunning (foldl (processLine cfg parse) s lns) = timerRunning s"
proof (induction lns arbitrary: s)
  case Nil
  then show ?case by simp
next
  case (Cons ln lns)
  then show ?case
    using processLine_later[OF Cons.prems, of cfg parse ln] by simp
qed

lemma onChunk_later:
  "\<not> isFirstChunk s \<Longrightarrow> timerRunning (onChunk cfg parse s c) = timerRunning s"
  using foldl_processLine_later[of "s\<lparr>buffer := last (split_nl (buffer s @ c))\<rparr>" cfg parse]
  by (simp add: onChunk_def Let_def)

lemma timer_cleared_only:
  assumes t: "timerRunning s" and c: "\<not> timerRunning (step cfg parse s ev)"
  shows "(ev = Tick \<and> \<not> generationLine s < lineCount (ed s))
       \<or> (ev = FetchRejected \<and> phase s = AwaitingResponse)
       \<or> (ev = ReadRejected \<and> phase s = Reading)
       \<or> (\<exists>r. ev = FetchResolved r \<and> phase s = AwaitingResponse \<and> (\<not> ok r \<or> \<not> hasBody r))
       \<or> (\<exists>x. ev = Chunk x \<and> phase s = Reading \<and> isFirstChunk s
             \<and> lineContents parse (butlast (split_nl (buffer s @ x))) \<noteq> [])"
proof (cases ev)
  case Tick
  then show ?thesis
    using t c tick_timer[of s cfg] by auto
next
  case FetchRejected
  then show ?thesis
    using t c by (auto split: if_splits)
next
  case (FetchResolved r)
  then show ?thesis
    using t c by (auto simp: onResponse_def split: if_splits option.splits)
next
  case (Chunk x)
  then show ?thesis
    using t c onChunk_later[of s cfg parse x] onChunk_quiet(1)[of parse s x cfg]
    by (auto split: if_splits)
next
  case Done
  then show ?thesis
    using t c by (auto split: if_splits)
next
  case ReadRejected
  then show ?thesis
    using t c by (auto split: if_splits)
qed

lemma run_quiet:
  assumes "list_all isStreamEvent evs" and "phase s = Reading" and "nl \<notin> set (buffer s)"
    and "generationLine s < lineCount (ed s)"
    and "lineContents parse (butlast (split_nl (buffer s @ wire evs))) = []"
  shows "timerRunning (run cfg parse s evs) = timerRunning s
       \<and> isFirstChunk (run cfg parse s evs) = isFirstChunk s
       \<and> phase (run cfg parse s evs) = Reading"
  using assms
proof (induction evs arbitrary: s)
  case Nil
  then show ?case by (simp add: run_Nil)
next
  case (Cons ev evs)
  from Cons.prems(1) have rest: "list_all isStreamEvent evs"
    by simp
  from Cons.prems(1) consider "ev = Tick" | c where "ev = Chunk c"
    by (cases ev) simp_all
  then show ?case
  proof cases
    case 1
    let ?s1 = "step cfg parse s Tick"
    have f: "phase ?s1 = Reading" "buffer ?s1 = buffer s"
      "generationLine ?s1 < lineCount (ed ?s1)" "timerRunning ?s1 = timerRunning s"
      "isFirstChunk ?s1 = isFirstChunk s" "generationLine ?s1 = generationLine s"
      using Cons.prems(2,4) tick_lineCount[OF Cons.prems(4), of cfg]
        tick_timer[OF Cons.prems(4), of cfg]
      by simp_all
    show ?thesis
      using Cons.IH[OF rest f(1), of ] Cons.prems(3,5) f 1
      by (simp add: run_Cons wire_Cons)
  next
    case 2
    let ?s1 = "onChunk cfg parse s c"
    let ?b1 = "last (split_nl (buffer s @ c))"
    have sp: "butlast (split_nl (buffer s @ wire (ev # evs)))
                = butlast (split_nl (buffer s @ c)) @ butlast (split_nl (?b1 @ wire evs))"
      using butlast_split_nl_append[of "buffer s @ c" "wire evs"] 2
      by (simp add: wire_Cons)
    have q: "lineContents parse (butlast (split_nl (buffer s @ c))) = []"
      and q': "lineContents parse (butlast (split_nl (?b1 @ wire evs))) = []"
      using Cons.prems(5) unfolding sp lineContents_append by simp_all
    have nb: "nl \<notin> set ?b1"
      by (rule split_nl_segments[of _ "buffer s @ c"]) simp
    note k = onChunk_quiet[OF q, of cfg]
    have "timerRunning (run cfg parse ?s1 evs) = timerRunning ?s1
       \<and> isFirstChunk (run cfg parse ?s1 evs) = isFirstChunk ?s1
       \<and> phase (run cfg parse ?s1 evs) = Reading"
      using Cons.prems(2,4) nb q' k(4)
      by (intro Cons.IH[OF rest]) simp_all
    then show ?thesis
      using 2 Cons.prems(2) k by (simp add: run_Cons)
  qed
qed

lemma ticks_keep:
  assumes "list_all (\<lambda>ev. ev = Tick) pre" and "generationLine s < lineCount (ed s)"
  shows "timerRunning (run cfg parse s pre) = timerRunning s
       \<and> isFirstChunk (run cfg parse s pre) = isFirstChunk s
       \<and> phase (run cfg parse s pre) = phase s
       \<and> generationLine (run cfg parse s pre) < lineCount (ed (run cfg parse s pre))"
  using assms
proof (induction pre arbitrary: s)
  case Nil
  then show ?case by (simp add: run_Nil)
next
  case (Cons ev pre)
  then have ev: "ev = Tick" and rest: "list_all (\<lambda>ev. ev = Tick) pre"
    by simp_all
  let ?s1 = "step cfg parse s Tick"
  have f: "generationLine ?s1 < lineCount (ed ?s1)" "timerRunning ?s1 = timerRunning s"
    "isFirstChunk ?s1 = isFirstChunk s" "phase ?s1 = phase s"
    using Cons.prems(2) tick_lineCount[OF Cons.prems(2), of cfg]
      tick_timer[OF Cons.prems(2), of cfg]
    by simp_all
  show ?case
    using Cons.IH[OF rest f(1)] f ev by (simp add: run_Cons)
qed

section \<open>A single-line stream\<close>

text \<open>
  Claim C1, as the code has it. An invocation on a line of the buffer with a model
  reference and a key; ticks until the response arrives; an OK response with a body;
  then any interleaving \<open>mid\<close> of ticks and chunks whose concatenated text carries, in its
  complete lines, exactly the content deltas \<^verbatim>\<open>Hel\<close> and \<^verbatim>\<open>lo\<close>; then the end of the
  stream; then any further events. The generation line then holds \<^verbatim>\<open>Hello\<close> under plain
  and horizontal-rule style and \<^verbatim>\<open>> Hello\<close> under callout style. The hypothesis is on the
  concatenation of the chunks only, so the result is the same however the text was cut
  into chunks and wherever the ticks fell. (The chunks are the decoded texts; the
  platform's streaming decoder is outside the model.)
\<close>

theorem single_line_stream:
  assumes "lineNum < lineCount e" and "findModel e lineNum \<noteq> None" and "apiKey cfg \<noteq> []"
    and "list_all (\<lambda>ev. ev = Tick) pre" and "ok r" and "hasBody r"
    and "list_all isStreamEvent mid"
    and "contentDeltas parse (wire mid) = [js ''Hel'', js ''lo'']"
  shows "getLine (ed (run cfg parse (processStreamingQuery cfg e lineNum lineText)
                        (pre @ FetchResolved r # mid @ Done # post)))
           (generationLine (processStreamingQuery cfg e lineNum lineText))
         = (if responseStyle cfg = Callout then js ''> Hello'' else js ''Hello'')"
proof -
  have ph: "phase (processStreamingQuery cfg e lineNum lineText) = AwaitingResponse"
    using assms(2,3) by (simp add: psq_phase)
  have nn: "\<forall>d\<in>set (contentDeltas parse (wire mid)). nl \<notin> set d"
    unfolding assms(8) by (simp add: js_def nl_def)
  have ne: "contentDeltas parse (wire mid) \<noteq> []"
    unfolding assms(8) by simp
  have "firstPrefix cfg @ concat [js ''Hel'', js ''lo'']
          = (if responseStyle cfg = Callout then js ''> Hello'' else js ''Hello'')"
    by (simp add: firstPrefix_def js_def)
  then show ?thesis
    using stream_line[OF assms(1-7) nn ne, of lineText post]
    unfolding psq_fields(1)[OF ph] assms(8) by simp
qed

theorem single_line_stream_witness:
  "1 < lineCount exEditor \<and> findModel exEditor 1 \<noteq> None \<and> apiKey exSettings \<noteq> []
   \<and> list_all (\<lambda>ev. ev = Tick) [Tick] \<and> ok (exResponse True 200)
   \<and> hasBody (exResponse True 200)
   \<and> list_all isStreamEvent
        [Chunk (js ''data: He''), Tick, Chunk (js ''l'' @ nl # js ''data: lo'' @ [nl])]
   \<and> contentDeltas exParse
        (wire [Chunk (js ''data: He''), Tick, Chunk (js ''l'' @ nl # js ''data: lo'' @ [nl])])
       = [js ''Hel'', js ''lo'']
   \<and> getLine (ed (run exSettings exParse
                     (processStreamingQuery exSettings exEditor 1 (js ''@m hi;;''))
                     ([Tick] @ FetchResolved (exResponse True 200)
                      # [Chunk (js ''data: He''), Tick,
                         Chunk (js ''l'' @ nl # js ''data: lo'' @ [nl])]
                      @ Done # [Tick])))
         (generationLine (processStreamingQuery exSettings exEditor 1 (js ''@m hi;;'')))
       = (if responseStyle exSettings = Callout then js ''> Hello'' else js ''Hello'')
   \<and> responseStyle exSettings \<noteq> Callout"
proof -
  have n: "1 < lineCount exEditor"
    by (rule ex_line(1))
  have f: "findModel exEditor 1 \<noteq> None"
    unfolding ex_findModel by simp
  have k: "apiKey exSettings \<noteq> []"
    by (simp add: exSettings_def js_def)
  have t: "list_all (\<lambda>ev. ev = Tick) [Tick]"
    by simp
  have r: "ok (exResponse True 200)" "hasBody (exResponse True 200)"
    by (simp_all add: exResponse_def)
  have m: "list_all isStreamEvent
        [Chunk (js ''data: He''), Tick, Chunk (js ''l'' @ nl # js ''data: lo'' @ [nl])]"
    by simp
  have c: "contentDeltas exParse
        (wire [Chunk (js ''data: He''), Tick, Chunk (js ''l'' @ nl # js ''data: lo'' @ [nl])])
       = [js ''Hel'', js ''lo'']"
    by code_simp
  have p: "responseStyle exSettings \<noteq> Callout"
    by (simp add: exSettings_def)
  show ?thesis
    by (intro conjI)
       (fact n f k t r m c p
             single_line_stream[OF n f k t r m c, of "js ''@m hi;;''" "[Tick]"])+
qed

text \<open>
  Under callout style, in the example buffer, the deltas \<^verbatim>\<open>Hel\<close> and \<^verbatim>\<open>lo\<close> leave the
  generation line as \<^verbatim>\<open>> Hello\<close>, which is not \<^verbatim>\<open>Hello\<close>.
\<close>

theorem single_line_stream_callout:
  "contentDeltas exParse (wire [Chunk (js ''data: Hel'' @ nl # js ''data: lo'' @ [nl])])
     = [js ''Hel'', js ''lo'']
   \<and> getLine (ed (run exCallout exParse exStartCallout
                     [FetchResolved (exResponse True 200),
                      Chunk (js ''data: Hel'' @ nl # js ''data: lo'' @ [nl]), Done]))
         (generationLine exStartCallout)
       = js ''> Hello''
   \<and> getLine (ed (run exCallout exParse exStartCallout
                     [FetchResolved (exResponse True 200),
                      Chunk (js ''data: Hel'' @ nl # js ''data: lo'' @ [nl]), Done]))
         (generationLine exStartCallout)
       \<noteq> js ''Hello''"
  by code_simp

section \<open>A stream without content\<close>

text \<open>
  Inserting at the start of a line and then behind the inserted text is inserting the
  two texts at once.
\<close>

lemma doc_insertAt_col0:
  "doc (insertAt e t (pos g 0)) = take g (doc e) @ split_nl (t @ getLine e g) @ drop (Suc g) (doc e)"
  by (simp add: insertAt_def doc_replaceRange)

lemma doc_insertAt:
  "doc (insertAt e t (pos n c))
     = take n (doc e) @ split_nl (take c (getLine e n) @ t @ drop c (getLine e n))
       @ drop (Suc n) (doc e)"
  by (simp add: insertAt_def doc_replaceRange)

lemma insertAt_doc: "insertAt e t p = e\<lparr>doc := doc (insertAt e t p)\<rparr>"
  by (simp add: insertAt_def replaceRange_def)

lemma advanceLines_col0:
  "advanceLines (pos g 0) a = pos (g + count_list a nl) (length (last (split_nl a)))"
  by (simp add: advanceLines_def Let_def length_split_nl)

lemma insertAt_glue:
  assumes g: "g < lineCount e" and n: "nl \<notin> set (getLine e g)"
  shows "insertAt (insertAt e a (pos g 0)) b (advanceLines (pos g 0) a)
         = insertAt e (a @ b) (pos g 0)"
proof -
  let ?L = "getLine e g"
  let ?la = "last (split_nl a)"
  let ?bl = "butlast (split_nl a)"
  let ?k = "count_list a nl"
  let ?e1 = "insertAt e a (pos g 0)"
  have lg: "length (take g (doc e)) = g"
    using g by (simp add: lineCount_def)
  have lb: "length ?bl = ?k"
    by (simp add: length_split_nl)
  have nla: "nl \<notin> set ?la"
    by (rule split_nl_segments[of _ a]) simp
  define X where "X = take g (doc e) @ ?bl"
  have len1: "length X = g + ?k"
    using lg lb by (simp add: X_def)
  have d1: "doc ?e1 = X @ (?la @ ?L) # drop (Suc g) (doc e)"
    by (simp add: doc_insertAt_col0 split_nl_append_plain[OF n] X_def)
  have l1: "getLine ?e1 (g + ?k) = ?la @ ?L"
    unfolding getLine_def d1 len1[symmetric] by simp
  have tk: "take (g + ?k) (doc ?e1) = X"
    unfolding d1 len1[symmetric] by simp
  have dr: "drop (Suc (g + ?k)) (doc ?e1) = drop (Suc g) (doc e)"
    unfolding d1 len1[symmetric] by simp
  have "doc (insertAt ?e1 b (pos (g + ?k) (length ?la)))
        = (take g (doc e) @ ?bl) @ split_nl (?la @ b @ ?L) @ drop (Suc g) (doc e)"
    unfolding doc_insertAt[of ?e1] l1 tk dr by (simp add: X_def)
  also have "split_nl (?la @ b @ ?L) = (?la @ hd (split_nl (b @ ?L))) # tl (split_nl (b @ ?L))"
    by (rule split_nl_plain_append[OF nla])
  also have "(take g (doc e) @ ?bl) @ ((?la @ hd (split_nl (b @ ?L))) # tl (split_nl (b @ ?L)))
               @ drop (Suc g) (doc e)
             = doc (insertAt e (a @ b) (pos g 0))"
    using split_nl_append[of a "b @ ?L"] by (simp add: doc_insertAt_col0)
  finally have d: "doc (insertAt ?e1 b (advanceLines (pos g 0) a)) = doc (insertAt e (a @ b) (pos g 0))"
    by (simp add: advanceLines_col0)
  have "insertAt ?e1 b (advanceLines (pos g 0) a)
        = ?e1\<lparr>doc := doc (insertAt e (a @ b) (pos g 0))\<rparr>"
    using insertAt_doc[of ?e1 b "advanceLines (pos g 0) a"] d by simp
  also have "\<dots> = e\<lparr>doc := doc (insertAt e (a @ b) (pos g 0))\<rparr>"
    by (simp add: insertAt_def replaceRange_def)
  also have "\<dots> = insertAt e (a @ b) (pos g 0)"
    using insertAt_doc[of e "a @ b" "pos g 0"] by simp
  finally show ?thesis .
qed

lemma insertAt_empty:
  assumes "g < lineCount e" and "nl \<notin> set (getLine e g)"
  shows "insertAt e [] (pos g 0) = e"
proof -
  have "doc (insertAt e [] (pos g 0)) = doc e"
    using assms by (simp add: doc_insertAt_col0 split_nl_no_nl getLine_nth lineCount_def
        id_take_nth_drop[symmetric])
  then show ?thesis
    using insertAt_doc[of e "[]" "pos g 0"] by simp
qed

lemma advanceLines_glue:
  "advanceLines (advanceLines p a) (nl # r) = advanceLines p (a @ nl # r)"
  by (simp add: advanceLines_def Let_def split_nl_append_nl length_split_nl)

lemma uniqueSources_Nil: "uniqueSources [] = []"
  by (simp add: uniqueSources_def)

lemma appendSources_eq:
  "appendSources cfg s =
     (if uniqueSources (collectedAnnotations s) = [] then s
      else s\<lparr>ed := insertAt (ed s)
                     (if responseStyle cfg = Callout
                      then replace_nl (sourcesText (uniqueSources (collectedAnnotations s)))
                      else sourcesText (uniqueSources (collectedAnnotations s)))
                     (currentInsertPos s),
              currentInsertPos := advanceLines (currentInsertPos s)
                     (if responseStyle cfg = Callout
                      then replace_nl (sourcesText (uniqueSources (collectedAnnotations s)))
                      else sourcesText (uniqueSources (collectedAnnotations s)))\<rparr>)"
  by (auto simp: appendSources_def Let_def uniqueSources_Nil)


lemma onDone_placeholder:
  assumes g: "generationLine s < lineCount (ed s)"
    and n: "nl \<notin> set (getLine (ed s) (generationLine s))"
    and p: "currentInsertPos s = pos (generationLine s) 0"
    and t: "t = (if uniqueSources (collectedAnnotations s) = [] then []
                 else if responseStyle cfg = Callout
                      then replace_nl (sourcesText (uniqueSources (collectedAnnotations s)))
                      else sourcesText (uniqueSources (collectedAnnotations s)))
                @ (if responseStyle cfg = HorizontalRule then [nl, nl] @ js ''---'' else [])"
  shows "ed (onDone cfg s)
         = (if cursorBehavior cfg = End
            then setCursor
                   (insertAt (ed s) (if last (split_nl t) \<noteq> [] then t @ [nl] else t)
                      (pos (generationLine s) 0))
                   (pos (generationLine s
                         + count_list (if last (split_nl t) \<noteq> [] then t @ [nl] else t) nl) 0)
            else insertAt (ed s) t (pos (generationLine s) 0))"
proof -
  let ?g = "generationLine s"
  let ?m = "uniqueSources (collectedAnnotations s)"
  let ?A = "if ?m = [] then []
            else if responseStyle cfg = Callout then replace_nl (sourcesText ?m)
                 else sourcesText ?m"
  let ?s1 = "appendSources cfg s"
  let ?s2 = "appendDivider cfg ?s1"
  have a1: "ed ?s1 = insertAt (ed s) ?A (pos ?g 0)"
    "currentInsertPos ?s1 = advanceLines (pos ?g 0) ?A"
    using insertAt_empty[OF g n] p by (simp_all add: appendSources_eq advanceLines_col0)
  have a2: "ed ?s2 = insertAt (ed s) t (pos ?g 0)
            \<and> currentInsertPos ?s2 = advanceLines (pos ?g 0) t"
  proof (cases "responseStyle cfg = HorizontalRule")
    case True
    have "ed ?s2 = insertAt (insertAt (ed s) ?A (pos ?g 0)) ([nl, nl] @ js ''---'')
                     (advanceLines (pos ?g 0) ?A)"
      and "currentInsertPos ?s2
           = advanceLines (advanceLines (pos ?g 0) ?A) (nl # nl # js ''---'')"
      using True a1 by (simp_all add: appendDivider_def Let_def)
    then show ?thesis
      unfolding insertAt_glue[OF g n] advanceLines_glue t using True by simp
  next
    case False
    then show ?thesis
      using a1 by (simp add: appendDivider_def t)
  qed
  have c: "currentInsertPos ?s2 = pos (?g + count_list t nl) (length (last (split_nl t)))"
    using a2 by (simp add: advanceLines_col0)
  have gl: "insertAt (ed ?s2) [nl] (currentInsertPos ?s2) = insertAt (ed s) (t @ [nl]) (pos ?g 0)"
    using a2 insertAt_glue[OF g n, of t "[nl]"] by simp
  show ?thesis
  proof (cases "cursorBehavior cfg = End")
    case False
    then show ?thesis
      using a2 by (simp add: onDone_def placeCursor_def)
  next
    case True
    show ?thesis
    proof (cases "last (split_nl t) = []")
      case e: True
      then show ?thesis
        using True a2[THEN conjunct1] c by (simp add: onDone_def placeCursor_def Let_def)
    next
      case e: False
      then show ?thesis
        using True gl c by (simp add: onDone_def placeCursor_def Let_def)
    qed
  qed
qed

lemma onDone_more_fields [simp]:
  "generationLine (onDone cfg s) = generationLine s"
  "currentFrameIndex (onDone cfg s) = currentFrameIndex s"
  "spinnerPrefix (onDone cfg s) = spinnerPrefix s"
  "loadingInterval (onDone cfg s) = loadingInterval s"
  by (simp_all add: onDone_def placeCursor_def appendDivider_def appendSources_def Let_def)

lemma psq_pos:
  assumes "phase (processStreamingQuery cfg e n t) = AwaitingResponse"
  shows "currentInsertPos (processStreamingQuery cfg e n t)
         = pos (generationLine (processStreamingQuery cfg e n t)) 0"
  using assms
  by (auto simp: processStreamingQuery_def returnedWith_def Let_def
           split: option.splits prod.splits if_splits)

lemma ticks_pos:
  "list_all (\<lambda>ev. ev = Tick) pre \<Longrightarrow>
   currentInsertPos (run cfg parse s pre) = currentInsertPos s"
  by (induction pre arbitrary: s) (simp_all add: run_Nil run_Cons)

lemma onChunk_quiet_eq:
  assumes "lineContents parse (butlast (split_nl (buffer s @ c))) = []"
  shows "\<exists>ns an. onChunk cfg parse s c
           = s\<lparr>buffer := last (split_nl (buffer s @ c)), notices := ns,
                collectedAnnotations := an\<rparr>"
proof -
  obtain ns an where
    "foldl (processLine cfg parse) (s\<lparr>buffer := last (split_nl (buffer s @ c))\<rparr>)
        (butlast (split_nl (buffer s @ c)))
     = (s\<lparr>buffer := last (split_nl (buffer s @ c))\<rparr>)\<lparr>notices := ns, collectedAnnotations := an\<rparr>"
    using foldl_processLine_quiet[OF assms] by blast
  then have "onChunk cfg parse s c
     = s\<lparr>buffer := last (split_nl (buffer s @ c)), notices := ns, collectedAnnotations := an\<rparr>"
    by (simp add: onChunk_def Let_def)
  then show ?thesis by blast
qed

lemma run_quiet_spinner:
  assumes "list_all isStreamEvent evs" and "phase s = Reading" and "nl \<notin> set (buffer s)"
    and "showsSpinner cfg s"
    and "lineContents parse (butlast (split_nl (buffer s @ wire evs))) = []"
  shows "showsSpinner cfg (run cfg parse s evs)
       \<and> currentInsertPos (run cfg parse s evs) = currentInsertPos s
       \<and> generationLine (run cfg parse s evs) = generationLine s"
  using assms
proof (induction evs arbitrary: s)
  case Nil
  then show ?case by (simp add: run_Nil)
next
  case (Cons ev evs)
  from Cons.prems(1) have rest: "list_all isStreamEvent evs"
    by simp
  from Cons.prems(1) consider "ev = Tick" | c where "ev = Chunk c"
    by (cases ev) simp_all
  then show ?case
  proof cases
    case 1
    let ?s1 = "step cfg parse s Tick"
    have f: "phase ?s1 = Reading" "buffer ?s1 = buffer s" "showsSpinner cfg ?s1"
      "currentInsertPos ?s1 = currentInsertPos s" "generationLine ?s1 = generationLine s"
      using Cons.prems(2,4) tick_showsSpinner[OF Cons.prems(4)] by simp_all
    show ?thesis
      using Cons.IH[OF rest f(1) _ f(3)] Cons.prems(3,5) f 1
      by (simp add: run_Cons wire_Cons)
  next
    case 2
    let ?s1 = "onChunk cfg parse s c"
    let ?b1 = "last (split_nl (buffer s @ c))"
    have sp: "butlast (split_nl (buffer s @ wire (ev # evs)))
                = butlast (split_nl (buffer s @ c)) @ butlast (split_nl (?b1 @ wire evs))"
      using butlast_split_nl_append[of "buffer s @ c" "wire evs"] 2
      by (simp add: wire_Cons)
    have q: "lineContents parse (butlast (split_nl (buffer s @ c))) = []"
      and q': "lineContents parse (butlast (split_nl (?b1 @ wire evs))) = []"
      using Cons.prems(5) unfolding sp lineContents_append by simp_all
    have nb: "nl \<notin> set ?b1"
      by (rule split_nl_segments[of _ "buffer s @ c"]) simp
    obtain ns an where e: "?s1 = s\<lparr>buffer := ?b1, notices := ns, collectedAnnotations := an\<rparr>"
      using onChunk_quiet_eq[OF q, of cfg] by blast
    have f: "phase ?s1 = Reading" "buffer ?s1 = ?b1" "showsSpinner cfg ?s1"
      "currentInsertPos ?s1 = currentInsertPos s" "generationLine ?s1 = generationLine s"
      unfolding e using Cons.prems(2,4) by (simp_all add: showsSpinner_def)
    have "showsSpinner cfg (run cfg parse ?s1 evs)
       \<and> currentInsertPos (run cfg parse ?s1 evs) = currentInsertPos ?s1
       \<and> generationLine (run cfg parse ?s1 evs) = generationLine ?s1"
      using nb q' f by (intro Cons.IH[OF rest]) simp_all
    then show ?thesis
      using 2 Cons.prems(2) f by (simp add: run_Cons)
  qed
qed

lemma tick_empty_line:
  assumes "generationLine s < lineCount (ed s)" and "getLine (ed s) (generationLine s) = []"
  shows "ed (tick cfg s) = ed s"
  using assms by (simp add: tick_def Let_def looksLikeSpinner_iff)

lemma ticks_stalled:
  assumes "list_all (\<lambda>ev. ev = Tick) post" and "generationLine s < lineCount (ed s)"
    and "getLine (ed s) (generationLine s) = []"
  shows "ed (run cfg parse s post) = ed s
       \<and> timerRunning (run cfg parse s post) = timerRunning s"
  using assms
proof (induction post arbitrary: s)
  case Nil
  then show ?case by (simp add: run_Nil)
next
  case (Cons ev post)
  then have ev: "ev = Tick" and rest: "list_all (\<lambda>ev. ev = Tick) post"
    by simp_all
  let ?s1 = "step cfg parse s Tick"
  have f: "ed ?s1 = ed s" "timerRunning ?s1 = timerRunning s"
    "generationLine ?s1 = generationLine s"
    using tick_empty_line[OF Cons.prems(2,3), of cfg] tick_timer[OF Cons.prems(2), of cfg]
    by simp_all
  show ?case
    using Cons.IH[OF rest, of ?s1] Cons.prems(2,3) f ev by (simp add: run_Cons)
qed

lemma spinner_next_frame:
  assumes "i < length spinnerFrames"
  shows "getSpinnerText ((i + 1) mod length spinnerFrames) \<noteq> getSpinnerText i"
proof -
  have d: "distinct spinnerFrames"
    by (simp add: spinnerFrames_def)
  have "(i + 1) mod length spinnerFrames \<noteq> i"
    using assms by (simp add: spinnerFrames_def) presburger
  moreover have "(i + 1) mod length spinnerFrames < length spinnerFrames"
    by (simp add: spinnerFrames_def)
  ultimately have "spinnerFrames ! ((i + 1) mod length spinnerFrames) \<noteq> spinnerFrames ! i"
    using d assms nth_eq_iff_index_eq by blast
  then show ?thesis
    by (simp add: getSpinnerText_def)
qed

lemma tick_next_frame:
  assumes "showsSpinner cfg s"
  shows "getLine (ed (tick cfg s)) (generationLine s) \<noteq> getLine (ed s) (generationLine s)"
  using tick_showsSpinner[OF assms] assms spinner_next_frame[of "currentFrameIndex s"]
  by (simp add: showsSpinner_def)

text \<open>
  Claim C10. An invocation on a line of a well-formed buffer whose response is OK and
  has a body, and whose body carries no non-empty content delta. Let \<open>s\<close> be the state
  when the reader reports the end: it still shows the placeholder on the generation
  line \<open>g\<close>, and the tracked position is the start of that line. The finalization
  \<open>onDone\<close> is what runs: the function has returned, the first chunk is still awaited,
  and the interval is still set, so further ticks run the callback. In any state, an
  interval that is set is cleared by a step only in these cases: a tick that finds the
  generation line gone; a rejected fetch or read (the \<^verbatim>\<open>catch\<close> block); a response
  that is not OK or has no body; a chunk that brings the first non-empty content delta.
  The end of the stream is not among them. What the finalization writes is the text
  \<open>t\<close>, the sources (if any citation was collected) followed by the divider (under
  horizontal-rule style), and a newline behind it when the cursor is to be moved to the
  end and the last line of \<open>t\<close> is not empty: this text \<open>t'\<close> is put in front of the
  placeholder on line \<open>g\<close>. The cursor stays where it is, or, when it is to be moved
  to the end, is set to column 0 of the line on which \<open>t'\<close> ends. When \<open>t\<close> is
  empty (no sources, not horizontal-rule style) the buffer is unchanged and every
  further tick shows the next frame: the animation goes on. When \<open>t\<close> is not empty,
  line \<open>g\<close> is empty afterwards, the placeholder has moved down, and the ticks, which
  still come, change nothing: the animation has stopped while the interval is set.
\<close>

theorem content_free_stream_keeps_timer:
  assumes "wf_doc e" and "lineNum < lineCount e" and "lineText = getLine e lineNum"
    and "findModel e lineNum \<noteq> None" and "apiKey cfg \<noteq> []"
    and "list_all (\<lambda>ev. ev = Tick) pre" and "ok r" and "hasBody r"
    and "list_all isStreamEvent mid" and "contentDeltas parse (wire mid) = []"
    and "list_all (\<lambda>ev. ev = Tick) post"
    and "s = run cfg parse (processStreamingQuery cfg e lineNum lineText)
               (pre @ FetchResolved r # mid)"
    and "final = run cfg parse (processStreamingQuery cfg e lineNum lineText)
                   (pre @ FetchResolved r # mid @ [Done])"
    and "g = generationLine s"
    and "src = uniqueSources (collectedAnnotations s)"
    and "t = (if src = [] then []
              else if responseStyle cfg = Callout then replace_nl (sourcesText src)
                   else sourcesText src)
             @ (if responseStyle cfg = HorizontalRule then [nl, nl] @ js ''---'' else [])"
    and "t' = (if cursorBehavior cfg = End \<and> last (split_nl t) \<noteq> [] then t @ [nl] else t)"
  shows "final = onDone cfg s
    \<and> phase final = Returned
    \<and> timerRunning final
    \<and> isFirstChunk final
    \<and> step cfg parse final Tick = tick cfg final
    \<and> (\<forall>s ev. timerRunning s \<and> \<not> timerRunning (step cfg parse s ev) \<longrightarrow>
          (ev = Tick \<and> \<not> generationLine s < lineCount (ed s))
          \<or> (ev = FetchRejected \<and> phase s = AwaitingResponse)
          \<or> (ev = ReadRejected \<and> phase s = Reading)
          \<or> (\<exists>r. ev = FetchResolved r \<and> phase s = AwaitingResponse
                \<and> (\<not> ok r \<or> \<not> hasBody r))
          \<or> (\<exists>x. ev = Chunk x \<and> phase s = Reading \<and> isFirstChunk s
                \<and> lineContents parse (butlast (split_nl (buffer s @ x))) \<noteq> []))
    \<and> showsSpinner cfg s
    \<and> currentInsertPos s = pos g 0
    \<and> generationLine final = g
    \<and> doc (ed final)
        = take g (doc (ed s)) @ split_nl (t' @ getLine (ed s) g) @ drop (Suc g) (doc (ed s))
    \<and> cursor (ed final)
        = (if cursorBehavior cfg = End then pos (g + count_list t' nl) 0 else cursor (ed s))
    \<and> timerRunning (run cfg parse final post)
    \<and> (t = [] \<longrightarrow>
          doc (ed final) = doc (ed s)
          \<and> showsSpinner cfg (run cfg parse final post)
          \<and> getLine (ed (step cfg parse (run cfg parse final post) Tick)) g
              \<noteq> getLine (ed (run cfg parse final post)) g)
    \<and> (t \<noteq> [] \<longrightarrow>
          getLine (ed final) g = []
          \<and> ed (run cfg parse final post) = ed final)"
proof -
  let ?s0 = "processStreamingQuery cfg e lineNum lineText"
  let ?s1 = "run cfg parse ?s0 pre"
  let ?s2 = "onResponse ?s1 r"
  have ph: "phase ?s0 = AwaitingResponse"
    using assms(4,5) by (simp add: psq_phase)
  have sp0: "showsSpinner cfg ?s0"
    by (rule psq_showsSpinner[OF ph assms(1,2,3)])
  note k1 = run_ticks[OF assms(6) sp0, of parse]
  have s1: "showsSpinner cfg ?s1" "timerRunning ?s1" "isFirstChunk ?s1"
    "phase ?s1 = AwaitingResponse" "loadingInterval ?s1"
    "currentInsertPos ?s1 = pos (generationLine ?s1) 0"
    using k1 ph psq_fields(3,4,5)[OF ph] psq_pos[OF ph] ticks_pos[OF assms(6), of cfg parse ?s0]
    by simp_all
  have e2: "?s2 = ?s1\<lparr>phase := Reading, buffer := [], collectedAnnotations := []\<rparr>"
    using assms(7,8) by (simp add: onResponse_def)
  have s2: "showsSpinner cfg ?s2" "timerRunning ?s2" "isFirstChunk ?s2" "phase ?s2 = Reading"
    "buffer ?s2 = []" "loadingInterval ?s2"
    "currentInsertPos ?s2 = pos (generationLine ?s2) 0"
    unfolding e2 using s1 by (simp_all add: showsSpinner_def)
  have g2: "generationLine ?s2 < lineCount (ed ?s2)"
    using s2(1) by (simp add: showsSpinner_def)
  have q: "lineContents parse (butlast (split_nl (buffer ?s2 @ wire mid))) = []"
    using assms(10) s2(5) by (simp add: contentDeltas_def)
  have nb: "nl \<notin> set (buffer ?s2)"
    using s2(5) by simp
  note k3 = run_quiet[OF assms(9) s2(4) nb g2 q, of cfg]
  note k4 = run_quiet_spinner[OF assms(9) s2(4) nb s2(1) q]
  have r3: "s = run cfg parse ?s2 mid"
    unfolding assms(12) using s1(4) by (simp add: run_append run_Cons)
  have s3: "timerRunning s" "isFirstChunk s" "phase s = Reading" "showsSpinner cfg s"
    "currentInsertPos s = pos g 0"
    unfolding r3 assms(14) using k3 k4 s2 by simp_all
  have r4: "final = onDone cfg s"
    unfolding assms(13)
    using s3(3) run_append[of cfg parse ?s0 "pre @ FetchResolved r # mid" "[Done]"]
    by (simp add: run_Cons run_Nil assms(12))
  have gl: "g < lineCount (ed s)"
    and ln: "getLine (ed s) g = firstPrefix cfg @ getSpinnerText (currentFrameIndex s)"
    and fi: "currentFrameIndex s < length spinnerFrames"
    and px: "spinnerPrefix s = firstPrefix cfg"
    using s3(4) by (simp_all add: showsSpinner_def assms(14))
  have nn: "nl \<notin> set (getLine (ed s) g)"
    unfolding ln using firstPrefix_no_nl[of cfg] spinner_no_nl[OF fi] by simp
  have tt: "t = (if uniqueSources (collectedAnnotations s) = [] then []
                 else if responseStyle cfg = Callout
                      then replace_nl (sourcesText (uniqueSources (collectedAnnotations s)))
                      else sourcesText (uniqueSources (collectedAnnotations s)))
                @ (if responseStyle cfg = HorizontalRule then [nl, nl] @ js ''---'' else [])"
    using assms(15,16) by simp
  note od = onDone_placeholder[of s t cfg, OF gl[unfolded assms(14)] nn[unfolded assms(14)]
      s3(5)[unfolded assms(14)] tt, folded assms(14)]
  have ed: "ed final = (if cursorBehavior cfg = End
                        then setCursor (insertAt (ed s) t' (pos g 0)) (pos (g + count_list t' nl) 0)
                        else insertAt (ed s) t' (pos g 0))"
    unfolding r4 od assms(17) by simp
  have dc: "doc (ed final)
        = take g (doc (ed s)) @ split_nl (t' @ getLine (ed s) g) @ drop (Suc g) (doc (ed s))"
    unfolding ed by (simp add: setCursor_def doc_insertAt_col0)
  have cu: "cursor (ed final)
        = (if cursorBehavior cfg = End then pos (g + count_list t' nl) 0 else cursor (ed s))"
    unfolding ed by (simp add: setCursor_def insertAt_def)
  have f: "phase final = Returned" "timerRunning final" "isFirstChunk final"
    "generationLine final = g" "loadingInterval final = loadingInterval s"
    "currentFrameIndex final = currentFrameIndex s" "spinnerPrefix final = spinnerPrefix s"
    unfolding r4 using s3 by (simp_all add: assms(14))
  have st: "step cfg parse final Tick = tick cfg final"
    using f(2) by simp
  have only: "\<forall>s ev. timerRunning s \<and> \<not> timerRunning (step cfg parse s ev) \<longrightarrow>
          (ev = Tick \<and> \<not> generationLine s < lineCount (ed s))
          \<or> (ev = FetchRejected \<and> phase s = AwaitingResponse)
          \<or> (ev = ReadRejected \<and> phase s = Reading)
          \<or> (\<exists>r. ev = FetchResolved r \<and> phase s = AwaitingResponse
                \<and> (\<not> ok r \<or> \<not> hasBody r))
          \<or> (\<exists>x. ev = Chunk x \<and> phase s = Reading \<and> isFirstChunk s
                \<and> lineContents parse (butlast (split_nl (buffer s @ x))) \<noteq> [])"
    using timer_cleared_only[of _ cfg parse] by blast
  have lc: "lineCount (ed s) \<le> lineCount (ed final)"
    unfolding ed using lineCount_insertAt_ge[of "ed s" t' "pos g 0"]
    by (simp add: setCursor_def lineCount_def)
  have gf: "generationLine final < lineCount (ed final)"
    using gl lc f(4) by simp
  have tr: "timerRunning (run cfg parse final post)"
    using ticks_keep[OF assms(11) gf, of cfg parse] f(2) by simp
  have A: "t = [] \<longrightarrow>
          doc (ed final) = doc (ed s)
          \<and> showsSpinner cfg (run cfg parse final post)
          \<and> getLine (ed (step cfg parse (run cfg parse final post) Tick)) g
              \<noteq> getLine (ed (run cfg parse final post)) g"
  proof
    assume e: "t = []"
    then have e': "t' = []"
      using assms(17) by simp
    have d: "doc (ed final) = doc (ed s)"
      unfolding dc e' using gl nn
      by (simp add: split_nl_no_nl getLine_nth lineCount_def id_take_nth_drop[symmetric])
    have sf: "showsSpinner cfg final"
      using s3(4) f(4,6,7) d by (auto simp: showsSpinner_def getLine_def lineCount_def assms(14))
    note k = run_ticks[OF assms(11) sf, of parse]
    let ?p = "run cfg parse final post"
    have "getLine (ed (tick cfg ?p)) (generationLine ?p) \<noteq> getLine (ed ?p) (generationLine ?p)"
      by (rule tick_next_frame) (use k in simp)
    then have "getLine (ed (step cfg parse ?p Tick)) g \<noteq> getLine (ed ?p) g"
      using k tr f(4) by simp
    then show "doc (ed final) = doc (ed s)
          \<and> showsSpinner cfg (run cfg parse final post)
          \<and> getLine (ed (step cfg parse (run cfg parse final post) Tick)) g
              \<noteq> getLine (ed (run cfg parse final post)) g"
      using d k by simp
  qed
  have B: "t \<noteq> [] \<longrightarrow> getLine (ed final) g = [] \<and> ed (run cfg parse final post) = ed final"
  proof
    assume e: "t \<noteq> []"
    obtain x where x: "sourcesText src = nl # x"
      using sourcesText_nl by blast
    have "\<exists>y. t = nl # y"
      using e unfolding assms(16) x by (auto split: if_splits)
    then have "\<exists>y. t' = nl # y"
      unfolding assms(17) by (cases "cursorBehavior cfg = End \<and> last (split_nl t) \<noteq> []") auto
    then obtain y where "t' = nl # y"
      by blast
    then have "doc (ed final) ! g = []"
      unfolding dc using gl by (simp add: nth_append lineCount_def)
    then have l: "getLine (ed final) (generationLine final) = []"
      using gf f(4) by (simp add: getLine_nth)
    show "getLine (ed final) g = [] \<and> ed (run cfg parse final post) = ed final"
      using ticks_stalled[OF assms(11) gf l, of cfg parse] l f(4) by simp
  qed
  show ?thesis
    by (intro conjI) (fact r4 f(1) f(2) f(3) st only s3(4) s3(5) f(4) dc cu tr A B)+
qed

theorem content_free_stream_keeps_timer_witness:
  "wf_doc exEditor \<and> 1 < lineCount exEditor \<and> js ''@m hi;;'' = getLine exEditor 1
   \<and> findModel exEditor 1 \<noteq> None \<and> apiKey exSettings \<noteq> [] \<and> apiKey exRuleEnd \<noteq> []
   \<and> list_all (\<lambda>ev. ev = Tick) [Tick] \<and> list_all (\<lambda>ev. ev = Tick) [Tick, Tick]
   \<and> ok (exResponse True 200) \<and> hasBody (exResponse True 200)
   \<and> list_all isStreamEvent exQuiet \<and> contentDeltas exParse (wire exQuiet) = []
   \<and> list_all isStreamEvent exCitations \<and> contentDeltas exCite (wire exCitations) = []
   \<and> phase (run exSettings exParse (processStreamingQuery exSettings exEditor 1 (js ''@m hi;;''))
               ([Tick] @ FetchResolved (exResponse True 200) # exQuiet @ [Done])) = Returned
   \<and> doc (ed (run exSettings exParse
                 (processStreamingQuery exSettings exEditor 1 (js ''@m hi;;''))
                 ([Tick] @ FetchResolved (exResponse True 200) # exQuiet @ [Done])))
       = [js ''intro'', js ''@m hi'', [], getSpinnerText 2]
   \<and> timerRunning
        (run exSettings exParse
           (run exSettings exParse (processStreamingQuery exSettings exEditor 1 (js ''@m hi;;''))
              ([Tick] @ FetchResolved (exResponse True 200) # exQuiet @ [Done]))
           [Tick, Tick])
   \<and> showsSpinner exSettings
        (run exSettings exParse
           (run exSettings exParse (processStreamingQuery exSettings exEditor 1 (js ''@m hi;;''))
              ([Tick] @ FetchResolved (exResponse True 200) # exQuiet @ [Done]))
           [Tick, Tick])
   \<and> getLine (ed (step exSettings exParse
        (run exSettings exParse
           (run exSettings exParse (processStreamingQuery exSettings exEditor 1 (js ''@m hi;;''))
              ([Tick] @ FetchResolved (exResponse True 200) # exQuiet @ [Done]))
           [Tick, Tick]) Tick)) 3
       \<noteq> getLine (ed
        (run exSettings exParse
           (run exSettings exParse (processStreamingQuery exSettings exEditor 1 (js ''@m hi;;''))
              ([Tick] @ FetchResolved (exResponse True 200) # exQuiet @ [Done]))
           [Tick, Tick])) 3
   \<and> doc (ed (run exRuleEnd exCite
                 (processStreamingQuery exRuleEnd exEditor 1 (js ''@m hi;;''))
                 ([Tick] @ FetchResolved (exResponse True 200) # exCitations @ [Done])))
       = [js ''intro'', js ''@m hi'', [], js ''---'', [],
          [], [], js ''**Sources:**'', js ''- [https://a](https://a)'',
          js ''- [https://b](https://b)'', [], [], js ''---'', getSpinnerText 2]
   \<and> cursor (ed (run exRuleEnd exCite
                 (processStreamingQuery exRuleEnd exEditor 1 (js ''@m hi;;''))
                 ([Tick] @ FetchResolved (exResponse True 200) # exCitations @ [Done])))
       = pos 13 0
   \<and> getLine (ed (run exRuleEnd exCite
                 (processStreamingQuery exRuleEnd exEditor 1 (js ''@m hi;;''))
                 ([Tick] @ FetchResolved (exResponse True 200) # exCitations @ [Done]))) 5 = []
   \<and> ed (run exRuleEnd exCite
           (run exRuleEnd exCite (processStreamingQuery exRuleEnd exEditor 1 (js ''@m hi;;''))
              ([Tick] @ FetchResolved (exResponse True 200) # exCitations @ [Done]))
           [Tick])
       = ed (run exRuleEnd exCite (processStreamingQuery exRuleEnd exEditor 1 (js ''@m hi;;''))
              ([Tick] @ FetchResolved (exResponse True 200) # exCitations @ [Done]))
   \<and> timerRunning
        (run exRuleEnd exCite
           (run exRuleEnd exCite (processStreamingQuery exRuleEnd exEditor 1 (js ''@m hi;;''))
              ([Tick] @ FetchResolved (exResponse True 200) # exCitations @ [Done]))
           [Tick])
   \<and> (timerRunning exStart \<and> \<not> timerRunning (step exSettings exParse exStart FetchRejected))
   \<and> phase exStart = AwaitingResponse"
proof -
  let ?QS = "run exSettings exParse (processStreamingQuery exSettings exEditor 1 (js ''@m hi;;''))
               ([Tick] @ FetchResolved (exResponse True 200) # exQuiet)"
  let ?RS = "run exRuleEnd exCite (processStreamingQuery exRuleEnd exEditor 1 (js ''@m hi;;''))
               ([Tick] @ FetchResolved (exResponse True 200) # exCitations)"
  let ?src = "[(js ''https://a'', js ''https://a''), (js ''https://b'', js ''https://b'')]"
  let ?t = "[nl, nl] @ js ''**Sources:**'' @ nl # js ''- [https://a](https://a)'' @ nl
            # js ''- [https://b](https://b)'' @ [nl] @ [nl, nl] @ js ''---''"
  have w: "wf_doc exEditor"
    by (rule ex_wf)
  have n: "1 < lineCount exEditor" and l: "js ''@m hi;;'' = getLine exEditor 1"
    by (rule ex_line)+
  have f: "findModel exEditor 1 \<noteq> None"
    unfolding ex_findModel by simp
  have k: "apiKey exSettings \<noteq> []" and k': "apiKey exRuleEnd \<noteq> []"
    by (simp_all add: exSettings_def exRuleEnd_def exRule_def js_def)
  have t1: "list_all (\<lambda>ev. ev = Tick) [Tick]" and t2: "list_all (\<lambda>ev. ev = Tick) [Tick, Tick]"
    by simp_all
  have r: "ok (exResponse True 200)" "hasBody (exResponse True 200)"
    by (simp_all add: exResponse_def)
  have m: "list_all isStreamEvent exQuiet" and m': "list_all isStreamEvent exCitations"
    by (simp_all add: exQuiet_def exCitations_def)
  have c: "contentDeltas exParse (wire exQuiet) = []"
    by code_simp
  have c': "contentDeltas exCite (wire exCitations) = []"
    by code_simp
  have h: "timerRunning exStart \<and> \<not> timerRunning (step exSettings exParse exStart FetchRejected)"
    by code_simp
  have qg: "3 = generationLine ?QS"
    by code_simp
  have qs: "[] = uniqueSources (collectedAnnotations ?QS)"
    by code_simp
  have qt: "[] = (if ([] :: (jstring \<times> jstring) list) = [] then []
              else if responseStyle exSettings = Callout then replace_nl (sourcesText [])
                   else sourcesText [])
             @ (if responseStyle exSettings = HorizontalRule then [nl, nl] @ js ''---'' else [])"
    by (simp add: exSettings_def)
  have qt': "[] = (if cursorBehavior exSettings = End \<and> last (split_nl []) \<noteq> [] then [] @ [nl]
                   else ([] :: jstring))"
    by simp
  have rg: "5 = generationLine ?RS"
    by code_simp
  have rs: "?src = uniqueSources (collectedAnnotations ?RS)"
    by code_simp
  have rt: "?t = (if ?src = [] then []
              else if responseStyle exRuleEnd = Callout then replace_nl (sourcesText ?src)
                   else sourcesText ?src)
             @ (if responseStyle exRuleEnd = HorizontalRule then [nl, nl] @ js ''---'' else [])"
    by code_simp
  have rt': "?t @ [nl] = (if cursorBehavior exRuleEnd = End \<and> last (split_nl ?t) \<noteq> []
                          then ?t @ [nl] else ?t)"
    by code_simp
  have tn: "?t \<noteq> []"
    by simp
  note Q = content_free_stream_keeps_timer[OF w n l f k t1 r m c t2 refl refl qg qs qt qt']
  note R = content_free_stream_keeps_timer[OF w n l f k' t1 r m' c' t1 refl refl rg rs rt rt']
  note Q2 = Q[THEN conjunct2, THEN conjunct1]
  note Q6 = Q[THEN conjunct2, THEN conjunct2, THEN conjunct2, THEN conjunct2, THEN conjunct2,
              THEN conjunct1, THEN spec, THEN spec, THEN mp, OF h]
  note Q10 = Q[THEN conjunct2, THEN conjunct2, THEN conjunct2, THEN conjunct2, THEN conjunct2,
               THEN conjunct2, THEN conjunct2, THEN conjunct2, THEN conjunct2, THEN conjunct2,
               THEN conjunct2]
  note Q12 = Q10[THEN conjunct1]
  note Q13 = Q10[THEN conjunct2, THEN conjunct1, THEN mp, OF refl]
  note R9 = R[THEN conjunct2, THEN conjunct2, THEN conjunct2, THEN conjunct2, THEN conjunct2,
              THEN conjunct2, THEN conjunct2, THEN conjunct2, THEN conjunct2]
  note R10 = R9[THEN conjunct1]
  note R11 = R9[THEN conjunct2, THEN conjunct1]
  note R12 = R9[THEN conjunct2, THEN conjunct2, THEN conjunct1]
  note R14 = R9[THEN conjunct2, THEN conjunct2, THEN conjunct2, THEN conjunct2, THEN mp, OF tn]
  have qd: "doc (ed ?QS) = [js ''intro'', js ''@m hi'', [], getSpinnerText 2]"
    by code_simp
  have rd: "take 5 (doc (ed ?RS)) @ split_nl ((?t @ [nl]) @ getLine (ed ?RS) 5)
              @ drop (Suc 5) (doc (ed ?RS))
            = [js ''intro'', js ''@m hi'', [], js ''---'', [],
               [], [], js ''**Sources:**'', js ''- [https://a](https://a)'',
               js ''- [https://b](https://b)'', [], [], js ''---'', getSpinnerText 2]"
    by code_simp
  have rc: "(if cursorBehavior exRuleEnd = End then pos (5 + count_list (?t @ [nl]) nl) 0
             else cursor (ed ?RS)) = pos 13 0"
    by code_simp
  have p: "phase exStart = AwaitingResponse"
    using Q6 by simp
  show ?thesis
    by (intro conjI)
       (fact w n l f k k' t1 t2 r m c m' c' h[THEN conjunct1] h[THEN conjunct2] Q2
             trans[OF Q13[THEN conjunct1] qd] Q12 Q13[THEN conjunct2, THEN conjunct1]
             Q13[THEN conjunct2, THEN conjunct2] trans[OF R10 rd] trans[OF R11 rc]
             R14[THEN conjunct1] R14[THEN conjunct2] R12 p)+
qed

text \<open>
  Under horizontal-rule style the stream without content leaves the interval set, but
  the divider was inserted in front of the placeholder: the generation line, line 5, is
  empty, the frame stands behind the divider on line 7, and a tick changes nothing.
\<close>

theorem content_free_stream_rule_stalls:
  "phase (run exRule exParse (processStreamingQuery exRule exEditor 1 (js ''@m hi;;''))
            ([FetchResolved (exResponse True 200)] @ exQuiet @ [Done])) = Returned
   \<and> timerRunning (run exRule exParse (processStreamingQuery exRule exEditor 1 (js ''@m hi;;''))
            ([FetchResolved (exResponse True 200)] @ exQuiet @ [Done]))
   \<and> doc (ed (run exRule exParse (processStreamingQuery exRule exEditor 1 (js ''@m hi;;''))
            ([FetchResolved (exResponse True 200)] @ exQuiet @ [Done])))
       = [js ''intro'', js ''@m hi'', [], js ''---'', [], [], [], js ''---'' @ getSpinnerText 1]
   \<and> generationLine (run exRule exParse (processStreamingQuery exRule exEditor 1 (js ''@m hi;;''))
            ([FetchResolved (exResponse True 200)] @ exQuiet @ [Done])) = 5
   \<and> ed (step exRule exParse
           (run exRule exParse (processStreamingQuery exRule exEditor 1 (js ''@m hi;;''))
              ([FetchResolved (exResponse True 200)] @ exQuiet @ [Done])) Tick)
       = ed (run exRule exParse (processStreamingQuery exRule exEditor 1 (js ''@m hi;;''))
              ([FetchResolved (exResponse True 200)] @ exQuiet @ [Done]))"
  by code_simp

end
